theory Spec2Isabelle
  imports Main "HOL-Library.AList"
begin

section \<open>The on-demand entry handler of the development server\<close>

text \<open>
  This theory embeds \<^verbatim>\<open>server/on-demand-entry-handler.js\<close>: the registry
  \<^verbatim>\<open>entries\<close>, the one-slot list \<^verbatim>\<open>lastAccessPages\<close>, the emitter
  \<^verbatim>\<open>doneCallbacks\<close>, the flag \<^verbatim>\<open>touchedAPage\<close>, and the handlers that act on
  them: \<^verbatim>\<open>ensurePage\<close>, the \<^verbatim>\<open>make\<close> and \<^verbatim>\<open>done\<close> plugins of the compiler,
  the \<^verbatim>\<open>message\<close> handler of the web socket and the interval callback
  \<^verbatim>\<open>disposeInactiveEntries\<close>.

  JavaScript runs each of these handlers to completion on one thread, so a handler is
  a function from the state before to the state after, and an execution of the
  program is a list of events.

  What belongs to the platform and not to the file is taken as follows.
  \<^item> \<^verbatim>\<open>path.join\<close> and \<^verbatim>\<open>__dirname\<close> are parameters (fields of \<open>env\<close>).
  \<^item> \<^verbatim>\<open>resolvePath\<close> reads the file system; an \<^verbatim>\<open>ensurePage\<close> event carries the
    resolver of that moment, a function from the path to an error or a path name.
    What \<^verbatim>\<open>ensurePage\<close> does before the resolver answers reads no state, so the
    event stands for the moment at which the executor of its promise runs.
  \<^item> The compiler is outside the state: what the handlers hand to it
    (\<^verbatim>\<open>addEntry\<close>, \<^verbatim>\<open>invalidate\<close>) is recorded in a trace, and so is the rest of
    what they do to the outside.
  \<^item> \<^verbatim>\<open>Date.now()\<close> is read once for every page a loop visits; an event carries
    these readings as a function of the page.
  \<^item> \<^verbatim>\<open>JSON.parse\<close> is the built-in; a message event carries its outcome on the
    message, \<open>None\<close> when it throws its \<^verbatim>\<open>SyntaxError\<close>.
  \<^item> \<^verbatim>\<open>entries\<close> is an object used as a dictionary and \<^verbatim>\<open>doneCallbacks\<close> an
    \<^verbatim>\<open>EventEmitter\<close> used as a table of listeners, both keyed by the page. The
    model keeps the keys of \<^verbatim>\<open>entries\<close> in insertion order, which is the order of
    \<^verbatim>\<open>Object.keys\<close> for keys that are not array indices. Members that an object
    inherits from \<^verbatim>\<open>Object.prototype\<close> are not modelled.
  \<^item> A page can bear the name of one of the emitter's own events. The event
    \<^verbatim>\<open>newListener\<close>, which the emitter emits before it adds a listener, is part
    of \<open>doneCallbacks_on\<close>. The event \<^verbatim>\<open>removeListener\<close> is never emitted, since no
    listener is removed. The event \<^verbatim>\<open>error\<close> differs from the others only when it
    has no listener, and the \<^verbatim>\<open>done\<close> plugin emits for keys of the registry only,
    which have one (\<open>run_keys_have_listeners\<close> below).
\<close>

subsection \<open>Data\<close>

text \<open>
  The three symbols of the file, and the objects stored in \<^verbatim>\<open>entries\<close>. An entry
  is created without \<^verbatim>\<open>lastActiveTime\<close>; reading it then gives \<^verbatim>\<open>undefined\<close>,
  here \<open>None\<close>. Times are the milliseconds of \<^verbatim>\<open>Date.now()\<close>.
\<close>

datatype status = ADDED | BUILDING | BUILT

text \<open>
  The values a callback is called with and a promise is rejected with: an error
  object, named by its message, or a string. In a condition an object counts as true,
  and a string does when it is not empty.
\<close>

datatype err = Error string | Str string

fun truthy :: "err \<Rightarrow> bool" where
  "truthy (Error m) = True"
| "truthy (Str x) = (x \<noteq> [])"

record entryInfo =
  name :: string
  entry :: "string list"
  pathname :: string
  status :: status
  lastActiveTime :: "int option"

text \<open>
  The promise that \<^verbatim>\<open>ensurePage\<close> awaits. \<^verbatim>\<open>resolve\<close> and \<^verbatim>\<open>reject\<close> act on
  a pending promise only.
\<close>

datatype settled = Pending | Resolved | Rejected err

text \<open>
  The exceptions the message handler can throw, and the values \<^verbatim>\<open>JSON.parse\<close>
  returns. The handler reads no number, so a number is kept without its value.
\<close>

datatype exn = SyntaxError | TypeError

datatype json =
    JNull
  | JBool bool
  | JNumber
  | JString string
  | JArray "json list"
  | JObject "(string \<times> json) list"

text \<open>
  What the handlers do to the world outside their state, in the order in which they
  do it. \<open>Invoke cb e\<close> records that the listener \<open>cb\<close> was called with the
  argument \<open>e\<close>, \<open>None\<close> when it was called without one.
\<close>

datatype effect =
    Invalidate
  | AddEntry string "string list"
  | TouchLater string
  | ConsoleLog string
  | ConsoleError string
  | Send nat json
  | Invoke nat "err option"

text \<open>
  A listener is the closure \<^verbatim>\<open>processCallback\<close> of one call of \<^verbatim>\<open>ensurePage\<close>;
  it is named by the number of that call, which is also the index of the call's
  promise in \<open>promises\<close>, stored with the normalized page of the call.
\<close>

record state =
  entries :: "(string \<times> entryInfo) list"
  lastAccessPages :: "string list"
  doneCallbacks :: "string \<Rightarrow> nat list"
  touchedAPage :: bool
  promises :: "(string \<times> settled) list"
  trace :: "effect list"

text \<open>
  The options the handler is created with, and the two parameters taken from the
  platform.
\<close>

record env =
  dir :: string
  dev :: bool
  maxInactiveAge :: "int option"
  dirname :: string
  join :: "string list \<Rightarrow> string"

text \<open>The default parameter \<^verbatim>\<open>maxInactiveAge = 1000 * 25\<close>.\<close>

definition maxAge :: "env \<Rightarrow> int" where
  "maxAge env = (case maxInactiveAge env of None \<Rightarrow> 1000 * 25 | Some a \<Rightarrow> a)"

definition init :: state where
  "init = \<lparr>entries = [], lastAccessPages = [''''], doneCallbacks = (\<lambda>_. []),
     touchedAPage = False, promises = [], trace = []\<rparr>"

subsection \<open>normalizePage\<close>

text \<open>
  \<^verbatim>\<open>page.replace(/\/index$/, '/')\<close>: the pattern matches only at the end of the
  string, so the six characters \<^verbatim>\<open>/index\<close> at the end, if the string ends so, are
  replaced by a slash.
\<close>

definition normalizePage :: "string \<Rightarrow> string" where
  "normalizePage page =
     (let n = length page - 6
      in if 6 \<le> length page \<and> drop n page = ''/index'' then take n page @ ''/'' else page)"

subsection \<open>Promises and the emitter\<close>

definition settle :: "nat \<Rightarrow> settled \<Rightarrow> state \<Rightarrow> state" where
  "settle cb v s =
     s\<lparr>promises := (promises s)[cb :=
          (fst (promises s ! cb),
           if snd (promises s ! cb) = Pending then v else snd (promises s ! cb))]\<rparr>"

definition resolve :: "nat \<Rightarrow> state \<Rightarrow> state" where
  "resolve cb s = settle cb Resolved s"

definition reject :: "nat \<Rightarrow> err \<Rightarrow> state \<Rightarrow> state" where
  "reject cb e s = settle cb (Rejected e) s"

text \<open>
  \<^verbatim>\<open>function processCallback (err) { if (err) return reject(err); resolve() }\<close>,
  where \<open>None\<close> is the call without an argument (\<^verbatim>\<open>err\<close> is \<^verbatim>\<open>undefined\<close>) and
  \<open>Some x\<close> the call with the value \<open>x\<close>.
\<close>

definition processCallback :: "nat \<Rightarrow> err option \<Rightarrow> state \<Rightarrow> state" where
  "processCallback cb e s =
     (case e of
        None \<Rightarrow> resolve cb s
      | Some x \<Rightarrow> if truthy x then reject cb x s else resolve cb s)"

text \<open>
  \<^verbatim>\<open>doneCallbacks.emit(page, ...)\<close> calls the listeners registered for the event at
  that moment, in the order of their registration, with the arguments after the name
  of the event; \<^verbatim>\<open>processCallback\<close> reads the first of them.
\<close>

definition invoke :: "err option \<Rightarrow> nat \<Rightarrow> state \<Rightarrow> state" where
  "invoke e cb s = processCallback cb e (s\<lparr>trace := trace s @ [Invoke cb e]\<rparr>)"

definition doneCallbacks_emit :: "string \<Rightarrow> err option \<Rightarrow> state \<Rightarrow> state" where
  "doneCallbacks_emit page e s = fold (invoke e) (doneCallbacks s page) s"

text \<open>
  \<^verbatim>\<open>doneCallbacks.on(page, processCallback)\<close>. Before the emitter adds the listener
  it emits its own event \<^verbatim>\<open>newListener\<close>, if that event has listeners, with the name
  of the event that gets the listener as first argument and the listener as second:
  \<^verbatim>\<open>if (events.newListener !== undefined) target.emit('newListener', type, listener)\<close>.
  The listeners of \<^verbatim>\<open>newListener\<close> are the callbacks of the calls of
  \<^verbatim>\<open>ensurePage\<close> for a page of that name, and they take the name of the page for
  their \<^verbatim>\<open>err\<close>. The warning the emitter prints when an event has more than ten
  listeners is not modelled.
\<close>

definition doneCallbacks_on :: "string \<Rightarrow> nat \<Rightarrow> state \<Rightarrow> state" where
  "doneCallbacks_on page cb s =
     (let s1 = (if doneCallbacks s ''newListener'' \<noteq> []
                then doneCallbacks_emit ''newListener'' (Some (Str page)) s
                else s)
      in s1\<lparr>doneCallbacks := (doneCallbacks s1)(page := doneCallbacks s1 page @ [cb])\<rparr>)"

subsection \<open>ensurePage\<close>

text \<open>
  The part of the executor after the two \<^verbatim>\<open>if\<close>s: it is reached when there is no
  entry and when the entry is neither \<^verbatim>\<open>BUILT\<close> nor \<^verbatim>\<open>BUILDING\<close>.
\<close>

definition addPage :: "string \<Rightarrow> entryInfo \<Rightarrow> nat \<Rightarrow> state \<Rightarrow> state" where
  "addPage page info cb s =
     (let s1 = s\<lparr>trace := trace s @ [ConsoleLog (''> Building page: '' @ page)]\<rparr>;
          s2 = s1\<lparr>entries := AList.update page info (entries s1)\<rparr>;
          s3 = doneCallbacks_on page cb s2
      in s3\<lparr>trace := trace s3 @ [Invalidate]\<rparr>)"

text \<open>
  A call whose resolver fails rejects before the executor runs; the model records its
  promise as rejected and changes nothing else.
\<close>

definition ensurePage :: "env \<Rightarrow> string \<Rightarrow> (string \<Rightarrow> err + string) \<Rightarrow> state \<Rightarrow> state" where
  "ensurePage env rawPage resolvePath s =
     (let page = normalizePage rawPage;
          pagePath = join env [dir env, ''pages'', page];
          cb = length (promises s)
      in case resolvePath pagePath of
           Inl e \<Rightarrow> s\<lparr>promises := promises s @ [(page, Rejected e)]\<rparr>
         | Inr pn \<Rightarrow>
             (let nm = join env [''bundles'', drop (length (dir env)) pn];
                  en = [join env [dirname env, ''..'', ''client/webpack-hot-middleware-client''],
                        join env [dirname env, ''..'', ''client'', ''on-demand-entries-client''],
                        pn @ ''?entry''];
                  info = \<lparr>name = nm, entry = en, pathname = pn, status = ADDED,
                          lastActiveTime = None\<rparr>;
                  s0 = s\<lparr>promises := promises s @ [(page, Pending)]\<rparr>
              in case map_of (entries s0) page of
                   None \<Rightarrow> addPage page info cb s0
                 | Some entryInfo \<Rightarrow>
                     if status entryInfo = BUILT then resolve cb s0
                     else if status entryInfo = BUILDING then doneCallbacks_on page cb s0
                     else addPage page info cb s0))"

subsection \<open>The make and done plugins\<close>

text \<open>
  Both loops run over \<^verbatim>\<open>Object.keys(entries)\<close> and neither adds or deletes a key, so
  the lookup of a visited page finds its entry. The \<^verbatim>\<open>make\<close> plugin reports to the
  compiler, through its callback, whether every \<^verbatim>\<open>addEntry\<close> succeeded; that report
  changes nothing in the state.
\<close>

definition make_page :: "string \<Rightarrow> state \<Rightarrow> state" where
  "make_page page s =
     (case map_of (entries s) page of
        None \<Rightarrow> s
      | Some entryInfo \<Rightarrow>
          s\<lparr>entries := AList.update page (entryInfo\<lparr>status := BUILDING\<rparr>) (entries s),
            trace := trace s @ [AddEntry (name entryInfo) (entry entryInfo)]\<rparr>)"

definition make_handler :: "state \<Rightarrow> state" where
  "make_handler s = fold make_page (map fst (entries s)) s"

definition done_page :: "(string \<Rightarrow> int) \<Rightarrow> string \<Rightarrow> state \<Rightarrow> state" where
  "done_page now page s =
     (case map_of (entries s) page of
        None \<Rightarrow> s
      | Some entryInfo \<Rightarrow>
          if status entryInfo \<noteq> BUILDING then s
          else
            (let s1 = (if \<not> touchedAPage s
                       then s\<lparr>touchedAPage := True,
                              trace := trace s @ [TouchLater (pathname entryInfo)]\<rparr>
                       else s);
                 s2 = s1\<lparr>entries := AList.update page
                            (entryInfo\<lparr>status := BUILT, lastActiveTime := Some (now page)\<rparr>)
                            (entries s1)\<rparr>
             in doneCallbacks_emit page None s2))"

text \<open>
  The handler takes \<^verbatim>\<open>stats\<close>, the outcome of the compilation pass, here the list of
  the errors the pass reports, and does not read it.
\<close>

definition done_handler :: "string list \<Rightarrow> (string \<Rightarrow> int) \<Rightarrow> state \<Rightarrow> state" where
  "done_handler stats now s = fold (done_page now) (map fst (entries s)) s"

subsection \<open>The message handler of the control channel\<close>

text \<open>
  \<^verbatim>\<open>parsedMessage.page\<close>: reading a property of \<^verbatim>\<open>null\<close> throws; an object gives
  the member (the last one of that name, as \<^verbatim>\<open>JSON.parse\<close> keeps it) or
  \<^verbatim>\<open>undefined\<close>; every other value gives \<^verbatim>\<open>undefined\<close>.
\<close>

fun json_page :: "json \<Rightarrow> exn + json option" where
  "json_page JNull = Inl TypeError"
| "json_page (JObject kvs) = Inr (map_of (rev kvs) ''page'')"
| "json_page _ = Inr None"

text \<open>
  \<^verbatim>\<open>normalizePage\<close> calls \<^verbatim>\<open>page.replace\<close>, which only a string has: for every
  other value the call throws a \<^verbatim>\<open>TypeError\<close>.
\<close>

definition on_message :: "nat \<Rightarrow> json option \<Rightarrow> int \<Rightarrow> state \<Rightarrow> state \<times> exn option" where
  "on_message conn parsed now s =
     (case parsed of
        None \<Rightarrow> (s, Some SyntaxError)
      | Some parsedMessage \<Rightarrow>
          (case json_page parsedMessage of
             Inl x \<Rightarrow> (s, Some x)
           | Inr (Some (JString rawPage)) \<Rightarrow>
               (let page = normalizePage rawPage
                in case map_of (entries s) page of
                     None \<Rightarrow>
                       (s\<lparr>trace := trace s @
                            [ConsoleError (''Client pings, but there's no entry for page: '' @ page),
                             Send conn (JObject [(''invalid'', JBool True)])]\<rparr>, None)
                   | Some entryInfo \<Rightarrow>
                       if status entryInfo \<noteq> BUILT then (s, None)
                       else
                         (s\<lparr>lastAccessPages := page # butlast (lastAccessPages s),
                            entries := AList.update page
                              (entryInfo\<lparr>lastActiveTime := Some now\<rparr>) (entries s)\<rparr>, None))
           | Inr _ \<Rightarrow> (s, Some TypeError)))"

subsection \<open>disposeInactiveEntries\<close>

text \<open>\<^verbatim>\<open>disposingPages.join(', ')\<close>\<close>

fun array_join :: "string \<Rightarrow> string list \<Rightarrow> string" where
  "array_join sep [] = []"
| "array_join sep [x] = x"
| "array_join sep (x # y # ys) = x @ sep @ array_join sep (y # ys)"

text \<open>
  The body of the first loop: whether the page is pushed on \<^verbatim>\<open>disposingPages\<close>.
  \<^verbatim>\<open>lastAccessPages[0]\<close> of an empty list is \<^verbatim>\<open>undefined\<close> and equals no page;
  \<^verbatim>\<open>Date.now() - undefined\<close> is \<^verbatim>\<open>NaN\<close> and exceeds nothing.
\<close>

definition disposing :: "(string \<times> entryInfo) list \<Rightarrow> string list \<Rightarrow> int \<Rightarrow> (string \<Rightarrow> int) \<Rightarrow>
    string \<Rightarrow> bool" where
  "disposing ents lastAccess maxInactive now page =
     (case map_of ents page of
        None \<Rightarrow> False
      | Some entryInfo \<Rightarrow>
          if status entryInfo \<noteq> BUILT then False
          else if (case lastAccess of [] \<Rightarrow> False | p # _ \<Rightarrow> p = page) then False
          else (case lastActiveTime entryInfo of
                  None \<Rightarrow> False
                | Some t \<Rightarrow> now page - t > maxInactive))"

definition disposeInactiveEntries :: "(string \<times> entryInfo) list \<Rightarrow> string list \<Rightarrow> int \<Rightarrow>
    (string \<Rightarrow> int) \<Rightarrow> (string \<times> entryInfo) list \<times> effect list" where
  "disposeInactiveEntries ents lastAccess maxInactive now =
     (let disposingPages = filter (disposing ents lastAccess maxInactive now) (map fst ents)
      in if length disposingPages > 0
         then (fold AList.delete disposingPages ents,
               [ConsoleLog (''> Disposing inactive page(s): '' @ array_join '', '' disposingPages),
                Invalidate])
         else (ents, []))"

text \<open>The callback of \<^verbatim>\<open>setInterval\<close>.\<close>

definition sweep :: "env \<Rightarrow> (string \<Rightarrow> int) \<Rightarrow> state \<Rightarrow> state" where
  "sweep env now s =
     (case disposeInactiveEntries (entries s) (lastAccessPages s) (maxAge env) now of
        (ents, effs) \<Rightarrow> s\<lparr>entries := ents, trace := trace s @ effs\<rparr>)"

subsection \<open>Events and executions\<close>

datatype event =
    EnsurePage string "string \<Rightarrow> err + string"
  | Make
  | Done "string list" "string \<Rightarrow> int"
  | Message nat "json option" int
  | Sweep "string \<Rightarrow> int"

text \<open>
  A step gives the state the handler leaves and the exception that leaves the handler,
  if one does. Only the message handler throws.
\<close>

fun step :: "env \<Rightarrow> event \<Rightarrow> state \<Rightarrow> state \<times> exn option" where
  "step env (EnsurePage rawPage resolvePath) s = (ensurePage env rawPage resolvePath s, None)"
| "step env Make s = (make_handler s, None)"
| "step env (Done stats now) s = (done_handler stats now s, None)"
| "step env (Message conn parsed now) s = on_message conn parsed now s"
| "step env (Sweep now) s = (sweep env now s, None)"

text \<open>An execution stops at the first exception that leaves a handler.\<close>

fun run :: "env \<Rightarrow> event list \<Rightarrow> state \<Rightarrow> state \<times> exn option" where
  "run env [] s = (s, None)"
| "run env (ev # evs) s =
     (case step env ev s of
        (s', None) \<Rightarrow> run env evs s'
      | (s', Some x) \<Rightarrow> (s', Some x))"

section \<open>Notions used in the statements\<close>

text \<open>What a pass start and a pass completion at time \<open>t\<close> do to one entry.\<close>

definition building :: "entryInfo \<Rightarrow> entryInfo" where
  "building e = e\<lparr>status := BUILDING\<rparr>"

definition built :: "int \<Rightarrow> entryInfo \<Rightarrow> entryInfo" where
  "built t e = (if status e = BUILDING then e\<lparr>status := BUILT, lastActiveTime := Some t\<rparr> else e)"

text \<open>
  The path \<^verbatim>\<open>ensurePage\<close> hands to the resolver, and the entry it stores for the
  path name the resolver returns.
\<close>

definition freshEntry :: "env \<Rightarrow> string \<Rightarrow> entryInfo" where
  "freshEntry env pn =
     \<lparr>name = join env [''bundles'', drop (length (dir env)) pn],
      entry = [join env [dirname env, ''..'', ''client/webpack-hot-middleware-client''],
               join env [dirname env, ''..'', ''client'', ''on-demand-entries-client''],
               pn @ ''?entry''],
      pathname = pn, status = ADDED, lastActiveTime = None\<rparr>"

definition pagePath :: "env \<Rightarrow> string \<Rightarrow> string" where
  "pagePath env rawPage = join env [dir env, ''pages'', normalizePage rawPage]"

text \<open>The page of a message that passes both guards of the handler.\<close>

definition accepted :: "json option \<Rightarrow> state \<Rightarrow> string option" where
  "accepted parsed s =
     (case parsed of
        Some (JObject kvs) \<Rightarrow>
          (case map_of (rev kvs) ''page'' of
             Some (JString rawPage) \<Rightarrow>
               (case map_of (entries s) (normalizePage rawPage) of
                  Some e \<Rightarrow> if status e = BUILT then Some (normalizePage rawPage) else None
                | None \<Rightarrow> None)
           | _ \<Rightarrow> None)
      | _ \<Rightarrow> None)"

text \<open>
  Every registered listener is the callback of a call of \<^verbatim>\<open>ensurePage\<close> for the
  page it is registered under.
\<close>

definition listeners_ok :: "state \<Rightarrow> bool" where
  "listeners_ok s \<longleftrightarrow>
     (\<forall>p. \<forall>cb\<in>set (doneCallbacks s p). cb < length (promises s) \<and> fst (promises s ! cb) = p)"

text \<open>What a call of \<^verbatim>\<open>processCallback\<close> makes of a pending promise.\<close>

definition verdict :: "err option \<Rightarrow> settled" where
  "verdict e = (case e of None \<Rightarrow> Resolved | Some x \<Rightarrow> if truthy x then Rejected x else Resolved)"

definition rank :: "status \<Rightarrow> nat" where
  "rank st = (case st of ADDED \<Rightarrow> 0 | BUILDING \<Rightarrow> 1 | BUILT \<Rightarrow> 2)"

text \<open>
  Whether some message of an execution passes both guards of the handler, that is,
  whether the execution writes to \<^verbatim>\<open>lastAccessPages\<close>.
\<close>

fun ping_accepted :: "env \<Rightarrow> event list \<Rightarrow> state \<Rightarrow> bool" where
  "ping_accepted env [] s = False"
| "ping_accepted env (ev # evs) s =
     ((case ev of Message conn parsed now \<Rightarrow> accepted parsed s \<noteq> None | _ \<Rightarrow> False) \<or>
      (case step env ev s of
         (s', None) \<Rightarrow> ping_accepted env evs s'
       | (s', Some x) \<Rightarrow> False))"

text \<open>
  A built entry has a \<^verbatim>\<open>lastActiveTime\<close>, and an added one has none.
\<close>

definition registry_ok :: "state \<Rightarrow> bool" where
  "registry_ok s \<longleftrightarrow>
     (\<forall>p e. map_of (entries s) p = Some e \<longrightarrow>
        (status e = BUILT \<longrightarrow> lastActiveTime e \<noteq> None) \<and>
        (status e = ADDED \<longrightarrow> lastActiveTime e = None))"

subsection \<open>Example executions\<close>

text \<open>
  A platform for the examples. Its \<^verbatim>\<open>path.join\<close> joins the parts that are not
  empty with slashes and writes repeated slashes as one.
\<close>

fun squeeze :: "string \<Rightarrow> string" where
  "squeeze (a # b # cs) =
     (if a = CHR ''/'' \<and> b = CHR ''/'' then squeeze (b # cs) else a # squeeze (b # cs))"
| "squeeze cs = cs"

definition demo_join :: "string list \<Rightarrow> string" where
  "demo_join parts = squeeze (array_join ''/'' (filter (\<lambda>part. part \<noteq> []) parts))"

definition demo_env :: env where
  "demo_env = \<lparr>dir = ''/app'', dev = True, maxInactiveAge = None,
     dirname = ''/next/server'', join = demo_join\<rparr>"

definition demo_resolve :: "string \<Rightarrow> err + string" where
  "demo_resolve p = Inr (p @ ''.js'')"

text \<open>
  A clock that shows the same time for every page of a loop, a well-formed ping, two
  more resolvers, and the states of some short executions.
\<close>

definition clock :: "int \<Rightarrow> string \<Rightarrow> int" where
  "clock t page = t"

definition ping :: "string \<Rightarrow> json option" where
  "ping page = Some (JObject [(''page'', JString page)])"

definition demo_missing :: "string \<Rightarrow> err + string" where
  "demo_missing p = Inl (Error ''ENOENT'')"

definition demo_resolve_dir :: "string \<Rightarrow> err + string" where
  "demo_resolve_dir p = Inr (p @ ''/index.js'')"

definition demo_added :: state where
  "demo_added = fst (run demo_env [EnsurePage ''/a'' demo_resolve] init)"

definition demo_newListener :: state where
  "demo_newListener = fst (run demo_env [EnsurePage ''newListener'' demo_resolve] init)"

definition demo_building :: state where
  "demo_building = fst (run demo_env [EnsurePage ''/a'' demo_resolve, Make] init)"

definition demo_built :: state where
  "demo_built = fst (run demo_env [EnsurePage ''/a'' demo_resolve, Make, Done [] (clock 0)] init)"

definition demo_rebuilding :: state where
  "demo_rebuilding = fst (run demo_env [Make, Done [] (clock 0), Make] demo_added)"

definition demo_ping_events :: "event list" where
  "demo_ping_events =
     [EnsurePage ''/a'' demo_resolve, EnsurePage ''/b'' demo_resolve,
      EnsurePage ''/c'' demo_resolve, EnsurePage ''/d'' demo_resolve, Make, Done [] (clock 0),
      EnsurePage ''/e'' demo_resolve,
      Message 0 (ping ''/a'') 20000, Message 0 (ping ''/c'') 20001]"

definition demo_pinged :: state where
  "demo_pinged = fst (run demo_env demo_ping_events init)"

definition demo_root_events :: "event list" where
  "demo_root_events =
     [EnsurePage '''' demo_resolve, EnsurePage ''/a'' demo_resolve, Make, Done [] (clock 0),
      Message 0 (ping ''/zz'') 5, Message 0 (ping ''/a/index'') 6]"

definition demo_root :: state where
  "demo_root = fst (run demo_env demo_root_events init)"

section \<open>Normalization\<close>

lemma normalizePage_slash: "normalizePage (p @ ''/'') = p @ ''/''"
  by (simp add: normalizePage_def Let_def)

lemma normalizePage_index: "normalizePage (p @ ''/index'') = p @ ''/''"
  by (simp add: normalizePage_def Let_def)

lemma normalizePage_cases:
  "normalizePage page = page \<or> (\<exists>p. page = p @ ''/index'' \<and> normalizePage page = p @ ''/'')"
proof (cases "6 \<le> length page \<and> drop (length page - 6) page = ''/index''")
  case True
  then have "page = take (length page - 6) page @ ''/index''"
    by (metis append_take_drop_id)
  then show ?thesis
    using normalizePage_index by metis
next
  case False
  then show ?thesis
    by (auto simp add: normalizePage_def Let_def)
qed

lemma normalizePage_idem: "normalizePage (normalizePage page) = normalizePage page"
  using normalizePage_cases [of page] normalizePage_slash by metis

section \<open>Promises and listeners\<close>

subsection \<open>What the primitives leave alone\<close>

lemma settle_fields [simp]:
  "entries (settle cb v s) = entries s"
  "lastAccessPages (settle cb v s) = lastAccessPages s"
  "doneCallbacks (settle cb v s) = doneCallbacks s"
  "touchedAPage (settle cb v s) = touchedAPage s"
  "trace (settle cb v s) = trace s"
  "length (promises (settle cb v s)) = length (promises s)"
  by (simp_all add: settle_def)

lemma settle_page [simp]: "fst (promises (settle cb v s) ! i) = fst (promises s ! i)"
  by (cases "cb < length (promises s)"; cases "i = cb") (simp_all add: settle_def list_update_beyond)

lemma settle_outcome:
  "snd (promises (settle cb v s) ! i) =
     (if i = cb \<and> cb < length (promises s) \<and> snd (promises s ! cb) = Pending then v
      else snd (promises s ! i))"
  by (cases "cb < length (promises s)"; cases "i = cb") (simp_all add: settle_def list_update_beyond)

lemma verdict_None [simp]: "verdict None = Resolved"
  by (simp add: verdict_def)

lemma verdict_not_Pending [simp]: "verdict e \<noteq> Pending"
  by (simp add: verdict_def split: option.split)

lemma invoke_fields [simp]:
  "entries (invoke e cb s) = entries s"
  "lastAccessPages (invoke e cb s) = lastAccessPages s"
  "doneCallbacks (invoke e cb s) = doneCallbacks s"
  "touchedAPage (invoke e cb s) = touchedAPage s"
  "trace (invoke e cb s) = trace s @ [Invoke cb e]"
  "length (promises (invoke e cb s)) = length (promises s)"
  "fst (promises (invoke e cb s) ! i) = fst (promises s ! i)"
  by (simp_all add: invoke_def processCallback_def resolve_def reject_def split: option.split)

lemma invoke_outcome:
  "snd (promises (invoke e cb s) ! i) =
     (if i = cb \<and> cb < length (promises s) \<and> snd (promises s ! cb) = Pending then verdict e
      else snd (promises s ! i))"
  by (cases e)
    (simp_all add: invoke_def processCallback_def resolve_def reject_def settle_outcome
      verdict_def)

lemma fold_invoke_fields [simp]:
  "entries (fold (invoke e) cbs s) = entries s"
  "lastAccessPages (fold (invoke e) cbs s) = lastAccessPages s"
  "doneCallbacks (fold (invoke e) cbs s) = doneCallbacks s"
  "touchedAPage (fold (invoke e) cbs s) = touchedAPage s"
  "trace (fold (invoke e) cbs s) = trace s @ map (\<lambda>cb. Invoke cb e) cbs"
  "length (promises (fold (invoke e) cbs s)) = length (promises s)"
  "fst (promises (fold (invoke e) cbs s) ! i) = fst (promises s ! i)"
  by (induction cbs arbitrary: s; simp)+

lemma fold_invoke_outcome:
  "snd (promises (fold (invoke e) cbs s) ! i) =
     (if i \<in> set cbs \<and> i < length (promises s) \<and> snd (promises s ! i) = Pending then verdict e
      else snd (promises s ! i))"
  by (induction cbs arbitrary: s) (auto simp add: invoke_outcome)

lemma emit_fields [simp]:
  "entries (doneCallbacks_emit page e s) = entries s"
  "lastAccessPages (doneCallbacks_emit page e s) = lastAccessPages s"
  "doneCallbacks (doneCallbacks_emit page e s) = doneCallbacks s"
  "touchedAPage (doneCallbacks_emit page e s) = touchedAPage s"
  "trace (doneCallbacks_emit page e s) = trace s @ map (\<lambda>cb. Invoke cb e) (doneCallbacks s page)"
  "length (promises (doneCallbacks_emit page e s)) = length (promises s)"
  "fst (promises (doneCallbacks_emit page e s) ! i) = fst (promises s ! i)"
  by (simp_all add: doneCallbacks_emit_def)

lemma emit_outcome:
  "snd (promises (doneCallbacks_emit page e s) ! i) =
     (if i \<in> set (doneCallbacks s page) \<and> i < length (promises s) \<and> snd (promises s ! i) = Pending
      then verdict e else snd (promises s ! i))"
  by (simp add: doneCallbacks_emit_def fold_invoke_outcome)

lemma emit_None_outcome:
  "snd (promises (doneCallbacks_emit page None s) ! i) =
     (if i \<in> set (doneCallbacks s page) \<and> i < length (promises s) \<and> snd (promises s ! i) = Pending
      then Resolved else snd (promises s ! i))"
  by (simp add: emit_outcome)

lemma emit_no_listener: "doneCallbacks s page = [] \<Longrightarrow> doneCallbacks_emit page e s = s"
  by (simp add: doneCallbacks_emit_def)

subsection \<open>Adding a listener\<close>

text \<open>
  Adding a listener is emitting \<^verbatim>\<open>newListener\<close> and then extending the list of
  the page; when \<^verbatim>\<open>newListener\<close> has no listener, it is the latter alone.
\<close>

lemma doneCallbacks_on_emit:
  "doneCallbacks_on page cb s =
     (doneCallbacks_emit ''newListener'' (Some (Str page)) s)
       \<lparr>doneCallbacks := (doneCallbacks s)(page := doneCallbacks s page @ [cb])\<rparr>"
  by (simp add: doneCallbacks_on_def Let_def emit_no_listener)

lemma doneCallbacks_on_quiet:
  "doneCallbacks s ''newListener'' = [] \<Longrightarrow>
     doneCallbacks_on page cb s =
       s\<lparr>doneCallbacks := (doneCallbacks s)(page := doneCallbacks s page @ [cb])\<rparr>"
  by (simp add: doneCallbacks_on_def)

lemma doneCallbacks_on_fields [simp]:
  "entries (doneCallbacks_on page cb s) = entries s"
  "lastAccessPages (doneCallbacks_on page cb s) = lastAccessPages s"
  "doneCallbacks (doneCallbacks_on page cb s) =
     (doneCallbacks s)(page := doneCallbacks s page @ [cb])"
  "touchedAPage (doneCallbacks_on page cb s) = touchedAPage s"
  "trace (doneCallbacks_on page cb s) =
     trace s @ map (\<lambda>l. Invoke l (Some (Str page))) (doneCallbacks s ''newListener'')"
  "length (promises (doneCallbacks_on page cb s)) = length (promises s)"
  "fst (promises (doneCallbacks_on page cb s) ! i) = fst (promises s ! i)"
  by (simp_all add: doneCallbacks_on_emit)

lemma doneCallbacks_on_outcome:
  "snd (promises (doneCallbacks_on page cb s) ! i) =
     (if i \<in> set (doneCallbacks s ''newListener'') \<and> i < length (promises s) \<and>
         snd (promises s ! i) = Pending
      then verdict (Some (Str page)) else snd (promises s ! i))"
  by (simp add: doneCallbacks_on_emit emit_outcome)

lemma addPage_fields [simp]:
  "entries (addPage page info cb s) = AList.update page info (entries s)"
  "lastAccessPages (addPage page info cb s) = lastAccessPages s"
  "doneCallbacks (addPage page info cb s) =
     (doneCallbacks s)(page := doneCallbacks s page @ [cb])"
  "touchedAPage (addPage page info cb s) = touchedAPage s"
  "trace (addPage page info cb s) =
     trace s @ [ConsoleLog (''> Building page: '' @ page)] @
     map (\<lambda>l. Invoke l (Some (Str page))) (doneCallbacks s ''newListener'') @ [Invalidate]"
  "length (promises (addPage page info cb s)) = length (promises s)"
  "fst (promises (addPage page info cb s) ! i) = fst (promises s ! i)"
  by (simp_all add: addPage_def Let_def)

lemma addPage_outcome:
  "snd (promises (addPage page info cb s) ! i) =
     (if i \<in> set (doneCallbacks s ''newListener'') \<and> i < length (promises s) \<and>
         snd (promises s ! i) = Pending
      then verdict (Some (Str page)) else snd (promises s ! i))"
  by (simp add: addPage_def Let_def doneCallbacks_on_outcome)

lemma addPage_quiet:
  "doneCallbacks s ''newListener'' = [] \<Longrightarrow>
     addPage page info cb s =
       s\<lparr>entries := AList.update page info (entries s),
         doneCallbacks := (doneCallbacks s)(page := doneCallbacks s page @ [cb]),
         trace := trace s @ [ConsoleLog (''> Building page: '' @ page), Invalidate]\<rparr>"
  by (simp add: addPage_def Let_def doneCallbacks_on_quiet)

section \<open>The handlers\<close>

subsection \<open>The two loops over the keys\<close>

lemma map_of_eq_None_keys: "map_of al k = None \<longleftrightarrow> k \<notin> set (map fst al)"
  by (simp add: map_of_eq_None_iff)

lemma map_of_Some_keys: "map_of al k = Some v \<Longrightarrow> k \<in> set (map fst al)"
  using map_of_eq_None_keys [of al k] by simp

lemma update_present_keys: "map_of al k = Some v \<Longrightarrow> map fst (AList.update k w al) = map fst al"
  using map_of_Some_keys [of al k v] by (simp add: update_keys)

lemma building_idem [simp]: "building (building e) = building e"
  by (simp add: building_def)

lemma make_page_fields [simp]:
  "lastAccessPages (make_page k s) = lastAccessPages s"
  "doneCallbacks (make_page k s) = doneCallbacks s"
  "touchedAPage (make_page k s) = touchedAPage s"
  "promises (make_page k s) = promises s"
  by (simp_all add: make_page_def split: option.split)

lemma make_page_keys [simp]: "map fst (entries (make_page k s)) = map fst (entries s)"
  by (simp add: make_page_def update_present_keys split: option.split)

lemma make_page_entries:
  "map_of (entries (make_page k s)) p =
     (if p = k then map_option building (map_of (entries s) p) else map_of (entries s) p)"
  by (simp add: make_page_def building_def update_conv' split: option.split)

lemma fold_make_page_fields [simp]:
  "lastAccessPages (fold make_page ks s) = lastAccessPages s"
  "doneCallbacks (fold make_page ks s) = doneCallbacks s"
  "touchedAPage (fold make_page ks s) = touchedAPage s"
  "promises (fold make_page ks s) = promises s"
  "map fst (entries (fold make_page ks s)) = map fst (entries s)"
  by (induction ks arbitrary: s; simp)+

lemma fold_make_page_entries:
  "map_of (entries (fold make_page ks s)) p =
     (if p \<in> set ks then map_option building (map_of (entries s) p) else map_of (entries s) p)"
  by (induction ks arbitrary: s)
    (auto simp add: make_page_entries option.map_comp comp_def)

lemma make_handler_fields [simp]:
  "lastAccessPages (make_handler s) = lastAccessPages s"
  "doneCallbacks (make_handler s) = doneCallbacks s"
  "touchedAPage (make_handler s) = touchedAPage s"
  "promises (make_handler s) = promises s"
  "map fst (entries (make_handler s)) = map fst (entries s)"
  by (simp_all add: make_handler_def)

lemma make_handler_entries:
  "map_of (entries (make_handler s)) p = map_option building (map_of (entries s) p)"
proof (cases "map_of (entries s) p")
  case None
  then show ?thesis
    using map_of_eq_None_keys [of "entries s" p]
    by (simp add: make_handler_def fold_make_page_entries)
next
  case (Some e)
  then show ?thesis
    using map_of_Some_keys [of "entries s" p e]
    by (simp add: make_handler_def fold_make_page_entries)
qed

lemma done_page_fields [simp]:
  "lastAccessPages (done_page now k s) = lastAccessPages s"
  "doneCallbacks (done_page now k s) = doneCallbacks s"
  "length (promises (done_page now k s)) = length (promises s)"
  "fst (promises (done_page now k s) ! i) = fst (promises s ! i)"
  by (simp_all add: done_page_def Let_def split: option.split)

lemma done_page_keys [simp]: "map fst (entries (done_page now k s)) = map fst (entries s)"
  by (simp add: done_page_def Let_def update_present_keys split: option.split)

lemma done_page_entries:
  "map_of (entries (done_page now k s)) p =
     (if p = k then map_option (built (now p)) (map_of (entries s) p) else map_of (entries s) p)"
  by (simp add: done_page_def built_def Let_def update_conv' split: option.split)

lemma built_idem [simp]: "built t (built t e) = built t e"
  by (simp add: built_def)

lemma fold_done_page_fields [simp]:
  "lastAccessPages (fold (done_page now) ks s) = lastAccessPages s"
  "doneCallbacks (fold (done_page now) ks s) = doneCallbacks s"
  "length (promises (fold (done_page now) ks s)) = length (promises s)"
  "fst (promises (fold (done_page now) ks s) ! i) = fst (promises s ! i)"
  "map fst (entries (fold (done_page now) ks s)) = map fst (entries s)"
  by (induction ks arbitrary: s; simp)+

lemma fold_done_page_entries:
  "map_of (entries (fold (done_page now) ks s)) p =
     (if p \<in> set ks then map_option (built (now p)) (map_of (entries s) p)
      else map_of (entries s) p)"
  by (induction ks arbitrary: s)
    (auto simp add: done_page_entries option.map_comp comp_def)

lemma done_handler_fields [simp]:
  "lastAccessPages (done_handler stats now s) = lastAccessPages s"
  "doneCallbacks (done_handler stats now s) = doneCallbacks s"
  "length (promises (done_handler stats now s)) = length (promises s)"
  "fst (promises (done_handler stats now s) ! i) = fst (promises s ! i)"
  "map fst (entries (done_handler stats now s)) = map fst (entries s)"
  by (simp_all add: done_handler_def)

lemma done_handler_entries:
  "map_of (entries (done_handler stats now s)) p = map_option (built (now p)) (map_of (entries s) p)"
proof (cases "map_of (entries s) p")
  case None
  then show ?thesis
    using map_of_eq_None_keys [of "entries s" p]
    by (simp add: done_handler_def fold_done_page_entries)
next
  case (Some e)
  then show ?thesis
    using map_of_Some_keys [of "entries s" p e]
    by (simp add: done_handler_def fold_done_page_entries)
qed

lemma status_built [simp]: "status (built t e) \<noteq> BUILDING"
  by (simp add: built_def)

lemma done_page_outcome:
  "snd (promises (done_page now k s) ! i) =
     (if snd (promises s ! i) = Pending \<and> i < length (promises s) \<and>
         (\<exists>e. map_of (entries s) k = Some e \<and> status e = BUILDING) \<and> i \<in> set (doneCallbacks s k)
      then Resolved else snd (promises s ! i))"
  by (auto simp add: done_page_def Let_def emit_None_outcome split: option.split)

lemma done_page_still_building:
  "(\<exists>e. map_of (entries (done_page now k s)) p = Some e \<and> status e = BUILDING) \<longleftrightarrow>
     p \<noteq> k \<and> (\<exists>e. map_of (entries s) p = Some e \<and> status e = BUILDING)"
  by (cases "map_of (entries s) p") (auto simp add: done_page_entries)

lemma fold_done_page_outcome:
  "snd (promises (fold (done_page now) ks s) ! i) =
     (if snd (promises s ! i) = Pending \<and> i < length (promises s) \<and>
         (\<exists>p\<in>set ks. (\<exists>e. map_of (entries s) p = Some e \<and> status e = BUILDING) \<and>
            i \<in> set (doneCallbacks s p))
      then Resolved else snd (promises s ! i))"
proof (induction ks arbitrary: s)
  case Nil
  show ?case by simp
next
  case (Cons k ks)
  show ?case
    unfolding fold_simps Cons.IH [of "done_page now k s"] done_page_outcome [of now k s i]
      done_page_still_building done_page_fields
    by auto
qed

lemma done_handler_outcome:
  "snd (promises (done_handler stats now s) ! i) =
     (if snd (promises s ! i) = Pending \<and> i < length (promises s) \<and>
         (\<exists>p e. map_of (entries s) p = Some e \<and> status e = BUILDING \<and> i \<in> set (doneCallbacks s p))
      then Resolved else snd (promises s ! i))"
proof -
  have "(\<exists>p\<in>set (map fst (entries s)). (\<exists>e. map_of (entries s) p = Some e \<and> status e = BUILDING) \<and>
            i \<in> set (doneCallbacks s p)) \<longleftrightarrow>
        (\<exists>p e. map_of (entries s) p = Some e \<and> status e = BUILDING \<and> i \<in> set (doneCallbacks s p))"
    using map_of_Some_keys by fast
  then show ?thesis
    unfolding done_handler_def fold_done_page_outcome by simp
qed

lemma done_page_trace:
  "trace (done_page now k s) = trace s @
     (case map_of (entries s) k of
        None \<Rightarrow> []
      | Some e \<Rightarrow>
          if status e \<noteq> BUILDING then []
          else (if touchedAPage s then [] else [TouchLater (pathname e)]) @
               map (\<lambda>cb. Invoke cb None) (doneCallbacks s k))"
  by (simp add: done_page_def Let_def split: option.split)

lemma fold_done_page_trace_prefix: "\<exists>xs. trace (fold (done_page now) ks s) = trace s @ xs"
proof (induction ks arbitrary: s)
  case Nil
  show ?case by simp
next
  case (Cons k ks)
  obtain xs where "trace (fold (done_page now) ks (done_page now k s)) = trace (done_page now k s) @ xs"
    using Cons.IH by blast
  then show ?case
    by (simp add: done_page_trace)
qed

lemma fold_done_page_invokes:
  assumes "p \<in> set ks" "map_of (entries s) p = Some e" "status e = BUILDING"
    "cb \<in> set (doneCallbacks s p)"
  shows "\<exists>xs. trace (fold (done_page now) ks s) = trace s @ xs \<and> Invoke cb None \<in> set xs"
  using assms
proof (induction ks arbitrary: s e)
  case Nil
  then show ?case by simp
next
  case (Cons k ks)
  show ?case
  proof (cases "k = p")
    case True
    obtain ys where ys: "trace (done_page now k s) = trace s @ ys" "Invoke cb None \<in> set ys"
      using Cons.prems True by (simp add: done_page_trace)
    obtain xs where "trace (fold (done_page now) ks (done_page now k s)) = trace (done_page now k s) @ xs"
      using fold_done_page_trace_prefix by blast
    with ys show ?thesis by simp
  next
    case False
    obtain ys where ys: "trace (done_page now k s) = trace s @ ys"
      by (simp add: done_page_trace)
    have "p \<in> set ks" "map_of (entries (done_page now k s)) p = Some e"
      "cb \<in> set (doneCallbacks (done_page now k s) p)"
      using Cons.prems False by (simp_all add: done_page_entries)
    then obtain xs where "trace (fold (done_page now) ks (done_page now k s)) =
        trace (done_page now k s) @ xs" "Invoke cb None \<in> set xs"
      using Cons.IH Cons.prems(3) by blast
    with ys show ?thesis by simp
  qed
qed

lemma done_handler_invokes:
  assumes "map_of (entries s) p = Some e" "status e = BUILDING" "cb \<in> set (doneCallbacks s p)"
  shows "\<exists>xs. trace (done_handler stats now s) = trace s @ xs \<and> Invoke cb None \<in> set xs"
  unfolding done_handler_def
  using fold_done_page_invokes [OF map_of_Some_keys [OF assms(1)] assms] .

subsection \<open>ensurePage\<close>

lemma ensurePage_failed:
  "resolvePath (pagePath env rawPage) = Inl x \<Longrightarrow>
     ensurePage env rawPage resolvePath s =
       s\<lparr>promises := promises s @ [(normalizePage rawPage, Rejected x)]\<rparr>"
  by (simp add: ensurePage_def pagePath_def Let_def)

lemma ensurePage_built:
  "resolvePath (pagePath env rawPage) = Inr pn \<Longrightarrow>
   map_of (entries s) (normalizePage rawPage) = Some e \<Longrightarrow> status e = BUILT \<Longrightarrow>
     ensurePage env rawPage resolvePath s =
       s\<lparr>promises := promises s @ [(normalizePage rawPage, Resolved)]\<rparr>"
  by (simp add: ensurePage_def pagePath_def Let_def resolve_def settle_def)

lemma ensurePage_building:
  "resolvePath (pagePath env rawPage) = Inr pn \<Longrightarrow>
   map_of (entries s) (normalizePage rawPage) = Some e \<Longrightarrow> status e = BUILDING \<Longrightarrow>
     ensurePage env rawPage resolvePath s =
       doneCallbacks_on (normalizePage rawPage) (length (promises s))
         (s\<lparr>promises := promises s @ [(normalizePage rawPage, Pending)]\<rparr>)"
  by (simp add: ensurePage_def pagePath_def Let_def)

lemma ensurePage_added:
  "resolvePath (pagePath env rawPage) = Inr pn \<Longrightarrow>
   map_of (entries s) (normalizePage rawPage) = None \<or>
   (\<exists>e. map_of (entries s) (normalizePage rawPage) = Some e \<and> status e = ADDED) \<Longrightarrow>
     ensurePage env rawPage resolvePath s =
       addPage (normalizePage rawPage) (freshEntry env pn) (length (promises s))
         (s\<lparr>promises := promises s @ [(normalizePage rawPage, Pending)]\<rparr>)"
  by (auto simp add: ensurePage_def pagePath_def Let_def freshEntry_def)

text \<open>The same two cases when \<^verbatim>\<open>newListener\<close> has no listener.\<close>

lemma ensurePage_building_quiet:
  "resolvePath (pagePath env rawPage) = Inr pn \<Longrightarrow>
   map_of (entries s) (normalizePage rawPage) = Some e \<Longrightarrow> status e = BUILDING \<Longrightarrow>
   doneCallbacks s ''newListener'' = [] \<Longrightarrow>
     ensurePage env rawPage resolvePath s =
       s\<lparr>promises := promises s @ [(normalizePage rawPage, Pending)],
         doneCallbacks := (doneCallbacks s)(normalizePage rawPage :=
           doneCallbacks s (normalizePage rawPage) @ [length (promises s)])\<rparr>"
  by (simp add: ensurePage_building doneCallbacks_on_quiet)

lemma ensurePage_added_quiet:
  "resolvePath (pagePath env rawPage) = Inr pn \<Longrightarrow>
   map_of (entries s) (normalizePage rawPage) = None \<or>
   (\<exists>e. map_of (entries s) (normalizePage rawPage) = Some e \<and> status e = ADDED) \<Longrightarrow>
   doneCallbacks s ''newListener'' = [] \<Longrightarrow>
     ensurePage env rawPage resolvePath s =
       s\<lparr>promises := promises s @ [(normalizePage rawPage, Pending)],
         entries := AList.update (normalizePage rawPage) (freshEntry env pn) (entries s),
         doneCallbacks := (doneCallbacks s)(normalizePage rawPage :=
           doneCallbacks s (normalizePage rawPage) @ [length (promises s)]),
         trace := trace s @ [ConsoleLog (''> Building page: '' @ normalizePage rawPage), Invalidate]\<rparr>"
  by (simp add: ensurePage_added addPage_quiet)

text \<open>The four cases are all there are.\<close>

lemma ensurePage_cases:
  obtains (failed) x where "resolvePath (pagePath env rawPage) = Inl x"
  | (built) pn e where "resolvePath (pagePath env rawPage) = Inr pn"
      "map_of (entries s) (normalizePage rawPage) = Some e" "status e = BUILT"
  | (building) pn e where "resolvePath (pagePath env rawPage) = Inr pn"
      "map_of (entries s) (normalizePage rawPage) = Some e" "status e = BUILDING"
  | (added) pn where "resolvePath (pagePath env rawPage) = Inr pn"
      "map_of (entries s) (normalizePage rawPage) = None \<or>
       (\<exists>e. map_of (entries s) (normalizePage rawPage) = Some e \<and> status e = ADDED)"
proof (cases "resolvePath (pagePath env rawPage)")
  case (Inl x)
  then show ?thesis by (rule failed)
next
  case (Inr pn)
  show ?thesis
  proof (cases "map_of (entries s) (normalizePage rawPage)")
    case None
    with Inr show ?thesis by (auto intro: added)
  next
    case (Some e)
    with Inr show ?thesis
      by (cases "status e") (auto intro: added building built)
  qed
qed

subsection \<open>The message handler\<close>

lemma on_message_fields [simp]:
  "doneCallbacks (fst (on_message conn parsed now s)) = doneCallbacks s"
  "touchedAPage (fst (on_message conn parsed now s)) = touchedAPage s"
  "promises (fst (on_message conn parsed now s)) = promises s"
  by (simp_all add: on_message_def Let_def split: option.split sum.split json.split)

lemma on_message_accepted:
  "accepted parsed s = Some page \<Longrightarrow>
     on_message conn parsed now s =
       (s\<lparr>lastAccessPages := page # butlast (lastAccessPages s),
          entries := AList.update page (the (map_of (entries s) page)\<lparr>lastActiveTime := Some now\<rparr>)
            (entries s)\<rparr>, None)"
  by (auto simp add: on_message_def accepted_def Let_def
      split: option.splits sum.splits json.splits if_splits)

lemma on_message_not_accepted:
  "accepted parsed s = None \<Longrightarrow>
     entries (fst (on_message conn parsed now s)) = entries s \<and>
     lastAccessPages (fst (on_message conn parsed now s)) = lastAccessPages s"
  by (cases parsed rule: option.exhaust; simp add: on_message_def accepted_def Let_def
      split: option.splits sum.splits json.splits if_splits)

lemma on_message_throws:
  "snd (on_message conn parsed now s) = Some x \<Longrightarrow> fst (on_message conn parsed now s) = s"
  by (simp add: on_message_def Let_def split: option.splits sum.splits json.splits if_splits)

lemma accepted_built:
  "accepted parsed s = Some page \<Longrightarrow> \<exists>e. map_of (entries s) page = Some e \<and> status e = BUILT"
  by (auto simp add: accepted_def split: option.splits json.splits if_splits)

subsection \<open>The sweep\<close>

lemma fold_delete_map_of:
  "map_of (fold AList.delete ps al) p = (if p \<in> set ps then None else map_of al p)"
  by (induction ps arbitrary: al) (auto simp add: delete_conv')

lemma fold_delete_distinct:
  "distinct (map fst al) \<Longrightarrow> distinct (map fst (fold AList.delete ps al))"
  by (induction ps arbitrary: al) (auto simp add: distinct_delete)

lemma disposing_key: "disposing ents la m now p \<Longrightarrow> p \<in> set (map fst ents)"
  using map_of_eq_None_keys [of ents p] by (auto simp add: disposing_def split: option.splits)

lemma disposeInactiveEntries_map_of:
  "map_of (fst (disposeInactiveEntries ents la m now)) p =
     (if disposing ents la m now p then None else map_of ents p)"
proof (cases "filter (disposing ents la m now) (map fst ents) = []")
  case True
  then have "\<not> disposing ents la m now p"
    using disposing_key [of ents la m now p] by (auto simp add: filter_empty_conv)
  with True show ?thesis
    by (simp add: disposeInactiveEntries_def)
next
  case False
  then show ?thesis
    using disposing_key [of ents la m now p]
    by (auto simp add: disposeInactiveEntries_def Let_def fold_delete_map_of)
qed

lemma sweep_fields [simp]:
  "lastAccessPages (sweep env now s) = lastAccessPages s"
  "doneCallbacks (sweep env now s) = doneCallbacks s"
  "touchedAPage (sweep env now s) = touchedAPage s"
  "promises (sweep env now s) = promises s"
  by (simp_all add: sweep_def split: prod.split)

lemma sweep_entries:
  "map_of (entries (sweep env now s)) p =
     (if disposing (entries s) (lastAccessPages s) (maxAge env) now p then None
      else map_of (entries s) p)"
  using disposeInactiveEntries_map_of [of "entries s" "lastAccessPages s" "maxAge env" now p]
  by (cases "disposeInactiveEntries (entries s) (lastAccessPages s) (maxAge env) now")
    (simp add: sweep_def)

section \<open>Executions\<close>

lemma run_invariant:
  assumes "P s0" and "\<And>ev s. P s \<Longrightarrow> P (fst (step env ev s))"
  shows "P (fst (run env evs s0))"
  using assms(1)
proof (induction evs arbitrary: s0)
  case Nil
  then show ?case by simp
next
  case (Cons ev evs)
  have "P (fst (step env ev s0))"
    using Cons.prems assms(2) by blast
  then show ?case
    using Cons.IH [of "fst (step env ev s0)"]
    by (cases "step env ev s0") (auto split: option.split)
qed

lemma listeners_ok_init: "listeners_ok init"
  by (simp add: listeners_ok_def init_def)

lemma listeners_ok_call:
  assumes "listeners_ok s" and "length (promises s') = Suc (length (promises s))"
    and "\<And>i. i < length (promises s) \<Longrightarrow> fst (promises s' ! i) = fst (promises s ! i)"
    and "fst (promises s' ! length (promises s)) = page"
    and "\<And>p. set (doneCallbacks s' p) \<subseteq>
           set (doneCallbacks s p) \<union> (if p = page then {length (promises s)} else {})"
  shows "listeners_ok s'"
  unfolding listeners_ok_def
proof (intro allI ballI)
  fix p cb
  assume "cb \<in> set (doneCallbacks s' p)"
  then consider "cb \<in> set (doneCallbacks s p)" | "p = page" "cb = length (promises s)"
    using assms(5) [of p] by (auto split: if_splits)
  then show "cb < length (promises s') \<and> fst (promises s' ! cb) = p"
  proof cases
    case 1
    then have "cb < length (promises s) \<and> fst (promises s ! cb) = p"
      using assms(1) by (simp add: listeners_ok_def)
    then show ?thesis
      by (simp add: assms(2,3))
  next
    case 2
    then show ?thesis
      by (simp add: assms(2,4))
  qed
qed

lemma ensurePage_listeners_ok:
  assumes "listeners_ok s"
  shows "listeners_ok (ensurePage env rawPage resolvePath s)"
proof (cases rule: ensurePage_cases [where resolvePath = resolvePath and env = env and rawPage = rawPage and s = s])
  case (failed x)
  show ?thesis
    using failed by - (rule listeners_ok_call [OF assms], auto simp add: ensurePage_failed nth_append)
next
  case (built pn e)
  show ?thesis
    using built by - (rule listeners_ok_call [OF assms], auto simp add: ensurePage_built nth_append)
next
  case (building pn e)
  show ?thesis
    using building by - (rule listeners_ok_call [OF assms], auto simp add: ensurePage_building nth_append)
next
  case (added pn)
  show ?thesis
    using added by - (rule listeners_ok_call [OF assms], auto simp add: ensurePage_added nth_append)
qed

lemma step_listeners_ok: "listeners_ok s \<Longrightarrow> listeners_ok (fst (step env ev s))"
proof (cases ev)
  case (EnsurePage rawPage resolvePath)
  assume "listeners_ok s"
  with EnsurePage show ?thesis
    by (simp add: ensurePage_listeners_ok)
qed (simp_all add: listeners_ok_def)

lemma run_listeners_ok: "listeners_ok (fst (run env evs init))"
  using listeners_ok_init step_listeners_ok by (rule run_invariant)

subsection \<open>What a step changes\<close>

lemma rank_simps [simp]: "rank ADDED = 0" "rank BUILDING = 1" "rank BUILT = 2"
  by (simp_all add: rank_def)

lemma ensurePage_entries:
  "map_of (entries (ensurePage env rawPage resolvePath s)) p = map_of (entries s) p \<or>
   p = normalizePage rawPage \<and>
   (\<forall>e. map_of (entries s) p = Some e \<longrightarrow> status e = ADDED) \<and>
   (\<exists>pn. map_of (entries (ensurePage env rawPage resolvePath s)) p = Some (freshEntry env pn))"
proof (cases rule: ensurePage_cases [where resolvePath = resolvePath and env = env and rawPage = rawPage and s = s])
  case (added pn)
  then show ?thesis
    by (auto simp add: ensurePage_added update_conv')
qed (simp_all add: ensurePage_failed ensurePage_built ensurePage_building)

lemma on_message_entries:
  "map_of (entries (fst (on_message conn parsed now s))) p =
     (if accepted parsed s = Some p
      then map_option (\<lambda>e. e\<lparr>lastActiveTime := Some now\<rparr>) (map_of (entries s) p)
      else map_of (entries s) p)"
proof (cases "accepted parsed s")
  case None
  then show ?thesis
    by (simp add: on_message_not_accepted)
next
  case (Some page)
  then show ?thesis
    using accepted_built [OF Some] by (auto simp add: on_message_accepted update_conv')
qed

lemma disposing_iff:
  "disposing ents la m now p \<longleftrightarrow>
     (\<exists>e t. map_of ents p = Some e \<and> status e = BUILT \<and> (la = [] \<or> hd la \<noteq> p) \<and>
        lastActiveTime e = Some t \<and> now p - t > m)"
  by (cases la) (auto simp add: disposing_def split: option.splits)

lemma ensurePage_lastAccessPages [simp]:
  "lastAccessPages (ensurePage env rawPage resolvePath s) = lastAccessPages s"
  by (cases rule: ensurePage_cases [where resolvePath = resolvePath and env = env and rawPage = rawPage and s = s])
    (simp_all add: ensurePage_failed ensurePage_built ensurePage_building ensurePage_added)

lemma ensurePage_listeners_grow:
  "\<exists>new. doneCallbacks (ensurePage env rawPage resolvePath s) p = doneCallbacks s p @ new"
  by (cases rule: ensurePage_cases [where resolvePath = resolvePath and env = env and rawPage = rawPage and s = s])
    (simp_all add: ensurePage_failed ensurePage_built ensurePage_building ensurePage_added)

lemma step_listeners_grow: "\<exists>new. doneCallbacks (fst (step env ev s)) p = doneCallbacks s p @ new"
  by (cases ev) (simp_all add: ensurePage_listeners_grow)

lemma run_listeners_grow: "\<exists>new. doneCallbacks (fst (run env evs s)) p = doneCallbacks s p @ new"
proof (rule run_invariant [where P = "\<lambda>s'. \<exists>new. doneCallbacks s' p = doneCallbacks s p @ new"])
  show "\<exists>new. doneCallbacks s p = doneCallbacks s p @ new" by simp
next
  fix ev and s' :: state
  assume "\<exists>new. doneCallbacks s' p = doneCallbacks s p @ new"
  then show "\<exists>new. doneCallbacks (fst (step env ev s')) p = doneCallbacks s p @ new"
    using step_listeners_grow [of env ev s' p] by auto
qed

lemma step_lastAccessPages:
  "lastAccessPages (fst (step env ev s)) =
     (case ev of
        Message conn parsed now \<Rightarrow>
          (case accepted parsed s of
             None \<Rightarrow> lastAccessPages s
           | Some page \<Rightarrow> page # butlast (lastAccessPages s))
      | _ \<Rightarrow> lastAccessPages s)"
  by (cases ev) (auto simp add: on_message_accepted on_message_not_accepted split: option.split)

lemma run_window_length: "length (lastAccessPages (fst (run env evs init))) = 1"
proof (rule run_invariant [where P = "\<lambda>s. length (lastAccessPages s) = 1"])
  show "length (lastAccessPages init) = 1"
    by (simp add: init_def)
next
  fix ev and s :: state
  assume "length (lastAccessPages s) = 1"
  then show "length (lastAccessPages (fst (step env ev s))) = 1"
    by (simp add: step_lastAccessPages split: event.split option.split)
qed

lemma run_window_unchanged:
  "\<not> ping_accepted env evs s \<Longrightarrow> lastAccessPages (fst (run env evs s)) = lastAccessPages s"
proof (induction evs arbitrary: s)
  case Nil
  show ?case by simp
next
  case (Cons ev evs)
  have same: "lastAccessPages (fst (step env ev s)) = lastAccessPages s"
    using Cons.prems by (auto simp add: step_lastAccessPages split: event.splits option.splits)
  show ?case
  proof (cases "step env ev s")
    case (Pair s' x)
    show ?thesis
    proof (cases x)
      case None
      then have "lastAccessPages (fst (run env evs s')) = lastAccessPages s'"
        using Cons.prems Pair by (intro Cons.IH) simp
      then show ?thesis
        using same Pair None by simp
    next
      case (Some y)
      then show ?thesis
        using same Pair by simp
    qed
  qed
qed

text \<open>
  While the listeners of a page run, and when its step of the loop is over, the entry
  of the page is \<^verbatim>\<open>BUILT\<close>: \<^verbatim>\<open>emit\<close> is called after the status is set, and it
  leaves the registry alone.
\<close>

lemma done_page_resolves_built:
  assumes "listeners_ok s" and "i < length (promises s)" and "snd (promises s ! i) = Pending"
    and "snd (promises (done_page now k s) ! i) = Resolved"
  shows "fst (promises s ! i) = k \<and>
    (\<exists>e. map_of (entries (done_page now k s)) k = Some e \<and> status e = BUILT)"
proof -
  obtain e where e: "map_of (entries s) k = Some e" "status e = BUILDING"
    and i: "i \<in> set (doneCallbacks s k)"
    using assms(3,4) unfolding done_page_outcome by (auto split: if_splits)
  have "fst (promises s ! i) = k"
    using assms(1) i by (simp add: listeners_ok_def)
  then show ?thesis
    using e by (simp add: done_page_entries built_def)
qed

subsection \<open>The registry in the states of an execution\<close>

text \<open>A page has at most one entry.\<close>

lemma sweep_keys_distinct:
  "distinct (map fst (entries s)) \<Longrightarrow> distinct (map fst (entries (sweep env now s)))"
  by (cases "disposeInactiveEntries (entries s) (lastAccessPages s) (maxAge env) now")
    (auto simp add: sweep_def disposeInactiveEntries_def Let_def fold_delete_distinct
      split: if_splits)

lemma ensurePage_keys_distinct:
  "distinct (map fst (entries s)) \<Longrightarrow>
     distinct (map fst (entries (ensurePage env rawPage resolvePath s)))"
  by (cases rule: ensurePage_cases [where resolvePath = resolvePath and env = env and rawPage = rawPage and s = s])
    (simp_all add: ensurePage_failed ensurePage_built ensurePage_building ensurePage_added
      distinct_update)

lemma on_message_keys_distinct:
  "distinct (map fst (entries s)) \<Longrightarrow>
     distinct (map fst (entries (fst (on_message conn parsed now s))))"
  by (cases "accepted parsed s")
    (simp_all add: on_message_not_accepted on_message_accepted distinct_update)

lemma run_keys_distinct: "distinct (map fst (entries (fst (run env evs init))))"
proof (rule run_invariant [where P = "\<lambda>s. distinct (map fst (entries s))"])
  show "distinct (map fst (entries init))"
    by (simp add: init_def)
next
  fix ev and s :: state
  assume "distinct (map fst (entries s))"
  then show "distinct (map fst (entries (fst (step env ev s))))"
    by (cases ev)
      (simp_all add: ensurePage_keys_distinct on_message_keys_distinct sweep_keys_distinct)
qed

text \<open>The times of the entries are as \<open>registry_ok\<close> says.\<close>

lemma step_registry_ok:
  assumes "registry_ok s"
  shows "registry_ok (fst (step env ev s))"
  unfolding registry_ok_def
proof (intro allI impI)
  fix p e'
  assume e': "map_of (entries (fst (step env ev s))) p = Some e'"
  have old: "(status e = BUILT \<longrightarrow> lastActiveTime e \<noteq> None) \<and>
      (status e = ADDED \<longrightarrow> lastActiveTime e = None)" if "map_of (entries s) p = Some e" for e
    using assms that by (simp add: registry_ok_def)
  show "(status e' = BUILT \<longrightarrow> lastActiveTime e' \<noteq> None) \<and>
      (status e' = ADDED \<longrightarrow> lastActiveTime e' = None)"
  proof (cases ev)
    case (EnsurePage rawPage resolvePath)
    then show ?thesis
      using e' old ensurePage_entries [of env rawPage resolvePath s p]
      by (auto simp add: freshEntry_def)
  next
    case Make
    then show ?thesis
      using e' old by (auto simp add: make_handler_entries building_def)
  next
    case (Done stats now)
    then show ?thesis
      using e' old by (auto simp add: done_handler_entries built_def split: if_splits)
  next
    case (Message conn parsed now)
    then show ?thesis
      using e' old accepted_built [of parsed s p]
      by (auto simp add: on_message_entries split: if_splits)
  next
    case (Sweep now)
    then show ?thesis
      using e' old by (auto simp add: sweep_entries split: if_splits)
  qed
qed

lemma run_registry_ok: "registry_ok (fst (run env evs init))"
proof (rule run_invariant)
  show "registry_ok init"
    by (simp add: registry_ok_def init_def)
qed (rule step_registry_ok)

text \<open>
  The promises after a call of \<^verbatim>\<open>ensurePage\<close> that adds a listener: the call's own
  promise is pending, and an older one changes only if it is pending and its callback
  listens to \<^verbatim>\<open>newListener\<close>; it is then the promise of a call for a page of that
  name.
\<close>

lemma ensurePage_subscribes:
  assumes "listeners_ok s" and "resolvePath (pagePath env rawPage) = Inr pn"
    and "\<forall>e. map_of (entries s) (normalizePage rawPage) = Some e \<longrightarrow> status e \<noteq> BUILT"
  shows "length (promises (ensurePage env rawPage resolvePath s)) = Suc (length (promises s))"
    and "fst (promises (ensurePage env rawPage resolvePath s) ! i) =
      fst ((promises s @ [(normalizePage rawPage, Pending)]) ! i)"
    and "snd (promises (ensurePage env rawPage resolvePath s) ! length (promises s)) = Pending"
    and "i < length (promises s) \<Longrightarrow>
      snd (promises (ensurePage env rawPage resolvePath s) ! i) =
        (if i \<in> set (doneCallbacks s ''newListener'') \<and> snd (promises s ! i) = Pending
         then verdict (Some (Str (normalizePage rawPage))) else snd (promises s ! i))"
    and "i \<in> set (doneCallbacks s ''newListener'') \<Longrightarrow>
      i < length (promises s) \<and> fst (promises s ! i) = ''newListener''"
proof -
  have nl: "i < length (promises s) \<and> fst (promises s ! i) = ''newListener''"
    if "i \<in> set (doneCallbacks s ''newListener'')" for i
    using assms(1) that by (simp add: listeners_ok_def)
  then have own: "length (promises s) \<notin> set (doneCallbacks s ''newListener'')"
    by blast
  consider (building) e where "map_of (entries s) (normalizePage rawPage) = Some e"
      "status e = BUILDING"
    | (added) "map_of (entries s) (normalizePage rawPage) = None \<or>
       (\<exists>e. map_of (entries s) (normalizePage rawPage) = Some e \<and> status e = ADDED)"
  proof (cases "map_of (entries s) (normalizePage rawPage)")
    case None
    then show ?thesis by (rule added [OF disjI1])
  next
    case (Some e)
    with assms(3) show ?thesis
      by (cases "status e") (auto intro: building added)
  qed
  then have eq: "ensurePage env rawPage resolvePath s =
        doneCallbacks_on (normalizePage rawPage) (length (promises s))
          (s\<lparr>promises := promises s @ [(normalizePage rawPage, Pending)]\<rparr>) \<or>
      ensurePage env rawPage resolvePath s =
        addPage (normalizePage rawPage) (freshEntry env pn) (length (promises s))
          (s\<lparr>promises := promises s @ [(normalizePage rawPage, Pending)]\<rparr>)"
    using assms(2) by cases (simp_all add: ensurePage_building ensurePage_added)
  from eq show "length (promises (ensurePage env rawPage resolvePath s)) = Suc (length (promises s))"
    by auto
  from eq show "fst (promises (ensurePage env rawPage resolvePath s) ! i) =
      fst ((promises s @ [(normalizePage rawPage, Pending)]) ! i)"
    by auto
  from eq own
  show "snd (promises (ensurePage env rawPage resolvePath s) ! length (promises s)) = Pending"
    by (auto simp add: doneCallbacks_on_outcome addPage_outcome)
  from eq show "snd (promises (ensurePage env rawPage resolvePath s) ! i) =
        (if i \<in> set (doneCallbacks s ''newListener'') \<and> snd (promises s ! i) = Pending
         then verdict (Some (Str (normalizePage rawPage))) else snd (promises s ! i))"
    if "i < length (promises s)"
    using that by (auto simp add: doneCallbacks_on_outcome addPage_outcome nth_append)
  show "i < length (promises s) \<and> fst (promises s ! i) = ''newListener''"
    if "i \<in> set (doneCallbacks s ''newListener'')"
    using nl that by blast
qed

text \<open>
  So such a call settles no promise of a call for another page than \<^verbatim>\<open>newListener\<close>.
\<close>

lemma ensurePage_subscribes_other:
  assumes "listeners_ok s" and "resolvePath (pagePath env rawPage) = Inr pn"
    and "\<forall>e. map_of (entries s) (normalizePage rawPage) = Some e \<longrightarrow> status e \<noteq> BUILT"
    and "i < length (promises (ensurePage env rawPage resolvePath s))"
    and "fst (promises (ensurePage env rawPage resolvePath s) ! i) \<noteq> ''newListener''"
  shows "snd (promises (ensurePage env rawPage resolvePath s) ! i) =
    (if i < length (promises s) then snd (promises s ! i) else Pending)"
proof -
  note sub = ensurePage_subscribes [where resolvePath = resolvePath and env = env
      and rawPage = rawPage and s = s and pn = pn, OF assms(1-3)]
  consider "i = length (promises s)" | "i < length (promises s)"
    using assms(4) sub(1) by (auto simp add: less_Suc_eq)
  then show ?thesis
  proof cases
    case 1
    then show ?thesis
      using sub(3) by simp
  next
    case 2
    have "fst (promises (ensurePage env rawPage resolvePath s) ! i) = fst (promises s ! i)"
      using sub(2) [of i] 2 by (simp add: nth_append)
    then have "i \<notin> set (doneCallbacks s ''newListener'')"
      using sub(5) [of i] assms(5) by auto
    then show ?thesis
      using sub(4) [OF 2] 2 by simp
  qed
qed

text \<open>
  A key of the registry has a listener, so the \<^verbatim>\<open>done\<close> plugin never emits an
  event without listeners.
\<close>

lemma run_keys_have_listeners:
  "map_of (entries (fst (run env evs init))) p = Some e \<Longrightarrow>
     doneCallbacks (fst (run env evs init)) p \<noteq> []"
proof -
  let ?P = "\<lambda>s. \<forall>p e. map_of (entries s) p = Some e \<longrightarrow> doneCallbacks s p \<noteq> []"
  have "?P (fst (run env evs init))"
  proof (rule run_invariant [where P = ?P])
    show "?P init"
      by (simp add: init_def)
  next
    fix ev and s :: state
    assume P: "?P s"
    show "?P (fst (step env ev s))"
    proof (cases ev)
      case (EnsurePage rawPage resolvePath)
      show ?thesis
        unfolding EnsurePage step.simps fst_conv
      proof (cases rule: ensurePage_cases [where resolvePath = resolvePath and env = env and rawPage = rawPage and s = s])
        case (failed x)
        with P show "?P (ensurePage env rawPage resolvePath s)"
          by (simp add: ensurePage_failed)
      next
        case (built pn e)
        with P show "?P (ensurePage env rawPage resolvePath s)"
          by (simp add: ensurePage_built)
      next
        case (building pn e)
        with P show "?P (ensurePage env rawPage resolvePath s)"
          by (simp add: ensurePage_building)
      next
        case (added pn)
        with P show "?P (ensurePage env rawPage resolvePath s)"
          by (simp add: ensurePage_added update_conv')
      qed
    next
      case Make
      with P show ?thesis
        by (auto simp add: make_handler_entries)
    next
      case (Done stats now)
      with P show ?thesis
        by (auto simp add: done_handler_entries)
    next
      case (Message conn parsed now)
      with P show ?thesis
        by (auto simp add: on_message_entries split: if_splits)
    next
      case (Sweep now)
      with P show ?thesis
        by (auto simp add: sweep_entries split: if_splits)
    qed
  qed
  then show "map_of (entries (fst (run env evs init))) p = Some e \<Longrightarrow>
     doneCallbacks (fst (run env evs init)) p \<noteq> []"
    by blast
qed

subsection \<open>The example executions, evaluated\<close>

lemma demo_added_facts:
  "map_option status (map_of (entries demo_added) ''/a'') = Some ADDED"
  "promises demo_added = [(''/a'', Pending)]"
  "doneCallbacks demo_added ''/a'' = [0]"
  "trace demo_added = [ConsoleLog ''> Building page: /a'', Invalidate]"
  "doneCallbacks demo_added ''newListener'' = []"
  by code_simp+

lemma demo_building_facts:
  "map_option status (map_of (entries demo_building) ''/a'') = Some BUILDING"
  "promises demo_building = [(''/a'', Pending)]"
  "doneCallbacks demo_building ''/a'' = [0]"
  by code_simp+

lemma demo_built_facts:
  "map_option status (map_of (entries demo_built) ''/a'') = Some BUILT"
  "promises demo_built = [(''/a'', Resolved)]"
  "snd (run demo_env [EnsurePage ''/a'' demo_resolve, Make, Done [] (clock 0)] init) = None"
  by code_simp+

lemma demo_rebuilding_facts:
  "map_option status (map_of (entries demo_rebuilding) ''/a'') = Some BUILDING"
  "promises demo_rebuilding = [(''/a'', Resolved)]"
  "snd (run demo_env [Make, Done [] (clock 0), Make] demo_added) = None"
  by code_simp+

lemma demo_rebuilding_run:
  "run demo_env [Make, Done [] (clock 0), Make] demo_added = (demo_rebuilding, None)"
  using demo_rebuilding_facts(3) by (simp add: demo_rebuilding_def prod_eq_iff)

lemma demo_pinged_facts:
  "map (\<lambda>(p, e). (p, status e, lastActiveTime e)) (entries demo_pinged) =
     [(''/a'', BUILT, Some 20000), (''/b'', BUILT, Some 0), (''/c'', BUILT, Some 20001),
      (''/d'', BUILT, Some 0), (''/e'', ADDED, None)]"
  "lastAccessPages demo_pinged = [''/c'']"
  by code_simp+

lemma demo_root_facts:
  "map (\<lambda>(p, e). (p, status e, lastActiveTime e)) (entries demo_root) =
     [('''', BUILT, Some 0), (''/a'', BUILT, Some 0)]"
  "lastAccessPages demo_root = ['''']"
  "snd (run demo_env demo_root_events init) = None"
  "ping_accepted demo_env demo_root_events init = False"
  by code_simp+

section \<open>C1: the status of an entry\<close>




section \<open>C2: a resolved call has a built entry\<close>




section \<open>C3: the outcome of a pass\<close>

text \<open>
  C3 as stated fails: the \<^verbatim>\<open>done\<close> plugin does not read \<^verbatim>\<open>stats\<close> and calls
  \<^verbatim>\<open>doneCallbacks.emit(page)\<close> without an error argument. A caller waiting on \<^verbatim>\<open>/a\<close>
  is released with success by the completion of a pass that reports an error.
\<close>

theorem failed_pass_resolves_counterexample:
  "promises demo_building = [(''/a'', Pending)] \<and> doneCallbacks demo_building ''/a'' = [0] \<and>
   promises (fst (step demo_env (Done [''Module build failed''] (clock 0)) demo_building)) =
     [(''/a'', Resolved)]"
  by code_simp

text \<open>
  C3, amended. A pass completion treats every outcome of the pass alike, and it
  rejects no promise: a promise is resolved by it if it was pending and its callback
  is registered for a page whose entry was \<^verbatim>\<open>BUILDING\<close>, and is left as it was
  otherwise. The branch of \<^verbatim>\<open>processCallback\<close> that rejects is never reached from
  the \<^verbatim>\<open>done\<close> plugin.
\<close>

theorem pass_completion_releases_with_success:
  "done_handler stats now s = done_handler [] now s \<and>
   snd (promises (done_handler stats now s) ! i) =
     (if snd (promises s ! i) = Pending \<and> i < length (promises s) \<and>
         (\<exists>p e. map_of (entries s) p = Some e \<and> status e = BUILDING \<and> i \<in> set (doneCallbacks s p))
      then Resolved else snd (promises s ! i))"
  using done_handler_outcome [of stats now s i] by (simp add: done_handler_def)

theorem pass_completion_releases_with_success_witness:
  "snd (promises demo_building ! 0) = Pending \<and>
   snd (promises (done_handler [''Module build failed''] (clock 0) demo_building) ! 0) = Resolved"
proof -
  obtain e where "map_of (entries demo_building) ''/a'' = Some e" "status e = BUILDING"
    using demo_building_facts(1) by auto
  then have "\<exists>p e. map_of (entries demo_building) p = Some e \<and> status e = BUILDING \<and>
      0 \<in> set (doneCallbacks demo_building p)"
    using demo_building_facts(3) by (intro exI [of _ "''/a''"] exI [of _ e]) simp
  then show ?thesis
    using pass_completion_releases_with_success
      [of "[''Module build failed'']" "clock 0" demo_building 0, THEN conjunct2]
    by (simp add: demo_building_facts(2))
qed

section \<open>C4: one sweep\<close>

text \<open>
  C4. After one sweep a page has no entry if and only if it had none before or its
  entry was \<^verbatim>\<open>BUILT\<close>, the page is not the first element of \<^verbatim>\<open>lastAccessPages\<close>,
  and the time read for it exceeds its \<^verbatim>\<open>lastActiveTime\<close> by more than
  \<^verbatim>\<open>maxInactiveAge\<close>; every other entry is kept as it is. In particular an entry
  whose \<^verbatim>\<open>lastActiveTime\<close> is at most \<^verbatim>\<open>maxInactiveAge\<close> old is kept, the entry of
  the first element of \<^verbatim>\<open>lastAccessPages\<close> is kept whatever its age, and an entry
  that is not \<^verbatim>\<open>BUILT\<close> is kept whatever its age.
\<close>

theorem sweep_deletes_exactly:
  "map_of (entries (sweep env now s)) p =
     (if \<exists>e t. map_of (entries s) p = Some e \<and> status e = BUILT \<and>
           (lastAccessPages s = [] \<or> hd (lastAccessPages s) \<noteq> p) \<and>
           lastActiveTime e = Some t \<and> now p - t > maxAge env
      then None else map_of (entries s) p) \<and>
   (\<forall>e t. map_of (entries s) p = Some e \<and> lastActiveTime e = Some t \<and> now p - t \<le> maxAge env \<longrightarrow>
      map_of (entries (sweep env now s)) p = Some e) \<and>
   (\<forall>ps. lastAccessPages s = p # ps \<longrightarrow>
      map_of (entries (sweep env now s)) p = map_of (entries s) p) \<and>
   (\<forall>e. map_of (entries s) p = Some e \<and> status e \<noteq> BUILT \<longrightarrow>
      map_of (entries (sweep env now s)) p = Some e)"
  unfolding sweep_entries disposing_iff by auto

theorem sweep_deletes_exactly_witness:
  "map fst (entries demo_pinged) = [''/a'', ''/b'', ''/c'', ''/d'', ''/e''] \<and>
   map_of (entries (sweep demo_env (clock 26000) demo_pinged)) ''/a'' = map_of (entries demo_pinged) ''/a'' \<and>
   map_of (entries (sweep demo_env (clock 26000) demo_pinged)) ''/b'' = None \<and>
   map_of (entries (sweep demo_env (clock 26000) demo_pinged)) ''/c'' = map_of (entries demo_pinged) ''/c'' \<and>
   map_of (entries (sweep demo_env (clock 26000) demo_pinged)) ''/d'' = None \<and>
   map_of (entries (sweep demo_env (clock 26000) demo_pinged)) ''/e'' = map_of (entries demo_pinged) ''/e''"
proof -
  obtain ea eb ec ed ee where es:
    "entries demo_pinged = [(''/a'', ea), (''/b'', eb), (''/c'', ec), (''/d'', ed), (''/e'', ee)]"
    using demo_pinged_facts(1) by (auto simp add: map_eq_Cons_conv)
  have st: "status ea = BUILT" "lastActiveTime ea = Some 20000"
    "status eb = BUILT" "lastActiveTime eb = Some 0"
    "status ec = BUILT" "lastActiveTime ec = Some 20001"
    "status ed = BUILT" "lastActiveTime ed = Some 0"
    "status ee = ADDED" "lastActiveTime ee = None"
    using demo_pinged_facts(1) unfolding es by simp_all
  have age: "maxAge demo_env = 25000"
    by (simp add: maxAge_def demo_env_def)
  show ?thesis
    using sweep_deletes_exactly [of demo_env "clock 26000" demo_pinged "''/a''"]
      sweep_deletes_exactly [of demo_env "clock 26000" demo_pinged "''/b''"]
      sweep_deletes_exactly [of demo_env "clock 26000" demo_pinged "''/c''"]
      sweep_deletes_exactly [of demo_env "clock 26000" demo_pinged "''/d''"]
      sweep_deletes_exactly [of demo_env "clock 26000" demo_pinged "''/e''"]
    by (simp add: es st demo_pinged_facts(2) age clock_def)
qed

section \<open>C5: ensurePage on a built page\<close>




section \<open>C6: ensurePage on an added page\<close>

text \<open>
  C6 as stated fails: for an entry that is \<^verbatim>\<open>ADDED\<close> neither of the two \<^verbatim>\<open>if\<close>s of
  the executor returns, so the call goes on as it does for a page without an entry.
  A second \<^verbatim>\<open>ensurePage('/a')\<close> before any pass start invalidates the build system a
  second time, and it stores what the resolver returns now, which may differ from what
  the entry held.
\<close>

theorem added_page_reinvalidates_counterexample:
  "map_option status (map_of (entries demo_added) ''/a'') = Some ADDED \<and>
   trace demo_added = [ConsoleLog ''> Building page: /a'', Invalidate] \<and>
   trace (ensurePage demo_env ''/a'' demo_resolve demo_added) =
     [ConsoleLog ''> Building page: /a'', Invalidate,
      ConsoleLog ''> Building page: /a'', Invalidate] \<and>
   map_option pathname (map_of (entries demo_added) ''/a'') = Some ''/app/pages/a.js'' \<and>
   map_option pathname (map_of (entries (ensurePage demo_env ''/a'' demo_resolve_dir demo_added)) ''/a'') =
     Some ''/app/pages/a/index.js''"
  by code_simp

text \<open>
  C6, amended. For a page whose entry is \<^verbatim>\<open>ADDED\<close>, \<^verbatim>\<open>ensurePage\<close> does what it
  does for a page without an entry: it logs, replaces the entry by a fresh one made
  from the resolver's answer (status \<^verbatim>\<open>ADDED\<close>, no \<^verbatim>\<open>lastActiveTime\<close>), registers
  the caller's callback for the page, which makes the emitter call the listeners of
  its event \<^verbatim>\<open>newListener\<close> with the name of the page, and invalidates the build
  system once. When \<^verbatim>\<open>newListener\<close> has no listener, this is all: the older promises
  are as before and the caller's promise is pending.
\<close>

theorem added_page_is_added_again:
  assumes "resolvePath (pagePath env rawPage) = Inr pn"
    and "map_of (entries s) (normalizePage rawPage) = Some e" and "status e = ADDED"
  shows "entries (ensurePage env rawPage resolvePath s) =
       AList.update (normalizePage rawPage) (freshEntry env pn) (entries s) \<and>
     status (freshEntry env pn) = ADDED \<and> lastActiveTime (freshEntry env pn) = None \<and>
     doneCallbacks (ensurePage env rawPage resolvePath s) =
       (doneCallbacks s)(normalizePage rawPage :=
          doneCallbacks s (normalizePage rawPage) @ [length (promises s)]) \<and>
     trace (ensurePage env rawPage resolvePath s) =
       trace s @ [ConsoleLog (''> Building page: '' @ normalizePage rawPage)] @
       map (\<lambda>l. Invoke l (Some (Str (normalizePage rawPage)))) (doneCallbacks s ''newListener'') @
       [Invalidate] \<and>
     lastAccessPages (ensurePage env rawPage resolvePath s) = lastAccessPages s \<and>
     touchedAPage (ensurePage env rawPage resolvePath s) = touchedAPage s \<and>
     length (promises (ensurePage env rawPage resolvePath s)) = Suc (length (promises s)) \<and>
     (doneCallbacks s ''newListener'' = [] \<longrightarrow>
        ensurePage env rawPage resolvePath s =
          s\<lparr>promises := promises s @ [(normalizePage rawPage, Pending)],
            entries := AList.update (normalizePage rawPage) (freshEntry env pn) (entries s),
            doneCallbacks := (doneCallbacks s)(normalizePage rawPage :=
              doneCallbacks s (normalizePage rawPage) @ [length (promises s)]),
            trace := trace s @
              [ConsoleLog (''> Building page: '' @ normalizePage rawPage), Invalidate]\<rparr>)"
proof -
  have added: "map_of (entries s) (normalizePage rawPage) = None \<or>
      (\<exists>e. map_of (entries s) (normalizePage rawPage) = Some e \<and> status e = ADDED)"
    using assms(2,3) by blast
  have "ensurePage env rawPage resolvePath s =
      addPage (normalizePage rawPage) (freshEntry env pn) (length (promises s))
        (s\<lparr>promises := promises s @ [(normalizePage rawPage, Pending)]\<rparr>)"
    using assms(1) added by (rule ensurePage_added)
  moreover have "doneCallbacks s ''newListener'' = [] \<longrightarrow>
        ensurePage env rawPage resolvePath s =
          s\<lparr>promises := promises s @ [(normalizePage rawPage, Pending)],
            entries := AList.update (normalizePage rawPage) (freshEntry env pn) (entries s),
            doneCallbacks := (doneCallbacks s)(normalizePage rawPage :=
              doneCallbacks s (normalizePage rawPage) @ [length (promises s)]),
            trace := trace s @
              [ConsoleLog (''> Building page: '' @ normalizePage rawPage), Invalidate]\<rparr>"
    using assms(1) added by (simp add: ensurePage_added_quiet)
  ultimately show ?thesis
    by (simp add: freshEntry_def)
qed

theorem added_page_is_added_again_witness:
  "map_option status (map_of (entries demo_added) ''/a'') = Some ADDED \<and>
   doneCallbacks demo_added ''newListener'' = [] \<and>
   trace (ensurePage demo_env ''/a'' demo_resolve demo_added) =
     trace demo_added @ [ConsoleLog ''> Building page: /a'', Invalidate] \<and>
   doneCallbacks (ensurePage demo_env ''/a'' demo_resolve demo_added) ''/a'' = [0, 1] \<and>
   promises (ensurePage demo_env ''/a'' demo_resolve demo_added) =
     [(''/a'', Pending), (''/a'', Pending)]"
proof -
  have n: "normalizePage ''/a'' = ''/a''"
    by (simp add: normalizePage_def)
  obtain e where e: "map_of (entries demo_added) (normalizePage ''/a'') = Some e" "status e = ADDED"
    using demo_added_facts(1) n by auto
  have r: "demo_resolve (pagePath demo_env ''/a'') = Inr (pagePath demo_env ''/a'' @ ''.js'')"
    by (simp add: demo_resolve_def)
  have quiet: "doneCallbacks demo_added ''newListener'' = []"
    by (rule demo_added_facts(5))
  have "ensurePage demo_env ''/a'' demo_resolve demo_added =
      demo_added\<lparr>promises := promises demo_added @ [(''/a'', Pending)],
        entries := AList.update ''/a'' (freshEntry demo_env (pagePath demo_env ''/a'' @ ''.js''))
          (entries demo_added),
        doneCallbacks := (doneCallbacks demo_added)(''/a'' := doneCallbacks demo_added ''/a'' @
          [length (promises demo_added)]),
        trace := trace demo_added @ [ConsoleLog (''> Building page: '' @ ''/a''), Invalidate]\<rparr>"
    using added_page_is_added_again [where resolvePath = demo_resolve and env = demo_env
      and rawPage = "''/a''" and s = demo_added, OF r e] quiet
    by (simp add: n)
  then show ?thesis
    using quiet by (simp add: demo_added_facts)
qed

section \<open>C7: normalization\<close>

text \<open>
  C7. \<^verbatim>\<open>normalizePage\<close> is idempotent on every string, and it sends \<^verbatim>\<open>/foo/index\<close>
  and \<^verbatim>\<open>/foo/\<close>, and in general \<^verbatim>\<open>p/index\<close> and \<^verbatim>\<open>p/\<close>, to the same key; a call
  of \<^verbatim>\<open>ensurePage\<close> with one has the effect of the call with the other.
\<close>

theorem normalizePage_idempotent_conflating:
  "normalizePage (normalizePage page) = normalizePage page \<and>
   normalizePage ''/foo/index'' = normalizePage ''/foo/'' \<and>
   normalizePage (p @ ''/index'') = normalizePage (p @ ''/'') \<and>
   ensurePage env (p @ ''/index'') resolvePath s = ensurePage env (p @ ''/'') resolvePath s"
proof -
  have "normalizePage ''/foo/index'' = normalizePage ''/foo/''"
    by (simp add: normalizePage_def)
  moreover have "normalizePage (p @ ''/index'') = normalizePage (p @ ''/'')"
    by (simp add: normalizePage_index normalizePage_slash)
  moreover have "ensurePage env (p @ ''/index'') resolvePath s =
      ensurePage env (p @ ''/'') resolvePath s"
    unfolding ensurePage_def normalizePage_index normalizePage_slash ..
  ultimately show ?thesis
    by (simp add: normalizePage_idem)
qed

theorem normalizePage_idempotent_conflating_witness:
  "normalizePage (normalizePage ''/foo/index'') = ''/foo/'' \<and>
   normalizePage ''/foo/index'' = ''/foo/'' \<and> normalizePage ''/foo/'' = ''/foo/'' \<and>
   ensurePage demo_env ''/foo/index'' demo_resolve demo_built =
     ensurePage demo_env ''/foo/'' demo_resolve demo_built"
proof -
  have "normalizePage ''/foo/'' = ''/foo/''"
    by (simp add: normalizePage_def)
  then show ?thesis
    using normalizePage_idempotent_conflating [of "''/foo/index''" "''/foo''" demo_env demo_resolve demo_built]
    by simp
qed

section \<open>C8: a message that is not JSON\<close>

text \<open>
  C8 as stated fails: the handler calls \<^verbatim>\<open>JSON.parse\<close> outside any \<^verbatim>\<open>try\<close>, so
  the \<^verbatim>\<open>SyntaxError\<close> of a malformed message leaves the handler, and the execution
  stops there.
\<close>

theorem malformed_json_throws_counterexample:
  "snd (step demo_env (Message 0 None 5) demo_built) = Some SyntaxError \<and>
   snd (run demo_env [Message 0 None 5, Make] demo_built) = Some SyntaxError"
  by code_simp

text \<open>
  C8, amended. For a message that is not well-formed JSON the handler throws the
  \<^verbatim>\<open>SyntaxError\<close> of \<^verbatim>\<open>JSON.parse\<close>; it has then changed nothing and sent
  nothing: the state is the one before the message. The same holds for every message
  on which the handler throws.
\<close>

theorem malformed_json_throws:
  "on_message conn None now s = (s, Some SyntaxError) \<and>
   (\<forall>parsed x. snd (on_message conn parsed now s) = Some x \<longrightarrow>
      fst (on_message conn parsed now s) = s)"
  using on_message_throws by (simp add: on_message_def)

theorem malformed_json_throws_witness:
  "on_message 3 None 5 demo_built = (demo_built, Some SyntaxError) \<and>
   on_message 3 (Some JNull) 5 demo_built = (demo_built, Some TypeError)"
proof -
  have "snd (on_message 3 (Some JNull) 5 demo_built) = Some TypeError"
    by (simp add: on_message_def)
  then show ?thesis
    using malformed_json_throws [of 3 5 demo_built] by (auto simp add: prod_eq_iff)
qed

section \<open>C9: the recency window\<close>

text \<open>
  C9 as stated fails: the empty string is the key of an entry after
  \<^verbatim>\<open>ensurePage('')\<close>. In the execution below no ping is accepted, the entry of the
  empty page is \<^verbatim>\<open>BUILT\<close> and far older than \<^verbatim>\<open>maxInactiveAge\<close>, and the sweep keeps
  it, while it deletes the entry of \<^verbatim>\<open>/a\<close> of the same age.
\<close>

theorem empty_page_entry_counterexample:
  "\<not> ping_accepted demo_env demo_root_events init \<and>
   map_option status (map_of (entries demo_root) '''') = Some BUILT \<and>
   map_option lastActiveTime (map_of (entries demo_root) '''') = Some (Some 0) \<and>
   maxAge demo_env < clock 1000000 '''' - 0 \<and>
   map_option status (map_of (entries (sweep demo_env (clock 1000000) demo_root)) '''') = Some BUILT \<and>
   map_of (entries (sweep demo_env (clock 1000000) demo_root)) ''/a'' = None"
  by code_simp

text \<open>
  C9, amended. In every state of an execution \<^verbatim>\<open>lastAccessPages\<close> has exactly one
  element. As long as no ping has been accepted it is the list of the empty string;
  a sweep then treats every page but the empty one without exemption, and keeps
  the entry of the empty page, if there is one.
\<close>

theorem recency_window_one_slot:
  assumes "run env evs init = (s, x)"
  shows "length (lastAccessPages s) = 1 \<and>
     (\<not> ping_accepted env evs init \<longrightarrow>
        lastAccessPages s = [''''] \<and>
        (\<forall>now p. p \<noteq> '''' \<longrightarrow>
           map_of (entries (sweep env now s)) p =
             (if \<exists>e t. map_of (entries s) p = Some e \<and> status e = BUILT \<and>
                   lastActiveTime e = Some t \<and> now p - t > maxAge env
              then None else map_of (entries s) p)) \<and>
        (\<forall>now. map_of (entries (sweep env now s)) '''' = map_of (entries s) ''''))"
proof -
  have s: "s = fst (run env evs init)"
    using assms by simp
  have len: "length (lastAccessPages s) = 1"
    unfolding s by (rule run_window_length)
  moreover have "lastAccessPages s = ['''']" if "\<not> ping_accepted env evs init"
    using run_window_unchanged [OF that] by (simp add: s init_def)
  ultimately show ?thesis
    by (auto simp add: sweep_entries disposing_iff)
qed

theorem recency_window_one_slot_witness:
  "run demo_env demo_root_events init = (demo_root, None) \<and>
   \<not> ping_accepted demo_env demo_root_events init \<and>
   lastAccessPages demo_root = [''''] \<and>
   map_of (entries demo_root) ''/a'' \<noteq> None \<and>
   map_of (entries (sweep demo_env (clock 1000000) demo_root)) ''/a'' = None \<and>
   map_of (entries (sweep demo_env (clock 1000000) demo_root)) '''' = map_of (entries demo_root) ''''"
proof -
  have r: "run demo_env demo_root_events init = (demo_root, None)"
    using demo_root_facts(3) by (simp add: demo_root_def prod_eq_iff)
  have np: "\<not> ping_accepted demo_env demo_root_events init"
    using demo_root_facts(4) by simp
  obtain e0 ea where es: "entries demo_root = [('''', e0), (''/a'', ea)]"
    using demo_root_facts(1) by (auto simp add: map_eq_Cons_conv)
  have st: "status ea = BUILT" "lastActiveTime ea = Some 0"
    using demo_root_facts(1) unfolding es by simp_all
  have age: "maxAge demo_env = 25000"
    by (simp add: maxAge_def demo_env_def)
  have "lastAccessPages demo_root = [''''] \<and>
      map_of (entries demo_root) ''/a'' \<noteq> None \<and>
      map_of (entries (sweep demo_env (clock 1000000) demo_root)) ''/a'' = None \<and>
      map_of (entries (sweep demo_env (clock 1000000) demo_root)) '''' =
        map_of (entries demo_root) ''''"
    using recency_window_one_slot [OF r] np by (simp add: es st age clock_def)
  with r np show ?thesis by blast
qed

section \<open>C10: listeners stay registered\<close>

text \<open>
  C10. A callback registered for a page stays registered in every later state, in
  its place in the list. At every later pass completion at which the entry of the page
  is \<^verbatim>\<open>BUILDING\<close> the callback is called again, without an error argument; if its
  promise is settled by then, the call leaves the promise as it is.
\<close>

theorem subscribers_never_removed:
  assumes "run env evs s0 = (s, x)" and "cb \<in> set (doneCallbacks s0 p)"
  shows "(\<exists>new. doneCallbacks s p = doneCallbacks s0 p @ new) \<and>
     (\<forall>stats now e. map_of (entries s) p = Some e \<and> status e = BUILDING \<longrightarrow>
        (\<exists>xs. trace (done_handler stats now s) = trace s @ xs \<and> Invoke cb None \<in> set xs)) \<and>
     (\<forall>stats now. cb < length (promises s) \<and> snd (promises s ! cb) \<noteq> Pending \<longrightarrow>
        promises (done_handler stats now s) ! cb = promises s ! cb)"
proof -
  have s: "s = fst (run env evs s0)"
    using assms(1) by simp
  obtain new where new: "doneCallbacks s p = doneCallbacks s0 p @ new"
    using run_listeners_grow [of env evs s0 p] s by auto
  then have cb: "cb \<in> set (doneCallbacks s p)"
    using assms(2) by simp
  have "\<exists>xs. trace (done_handler stats now s) = trace s @ xs \<and> Invoke cb None \<in> set xs"
    if "map_of (entries s) p = Some e" "status e = BUILDING" for stats now e
    using done_handler_invokes [OF that cb] .
  moreover have "promises (done_handler stats now s) ! cb = promises s ! cb"
    if "snd (promises s ! cb) \<noteq> Pending" for stats now
    using that by (intro prod_eqI) (simp_all add: done_handler_outcome)
  ultimately show ?thesis
    using new by blast
qed

theorem subscribers_never_removed_witness:
  "run demo_env [Make, Done [] (clock 0), Make] demo_added = (demo_rebuilding, None) \<and>
   doneCallbacks demo_added ''/a'' = [0] \<and>
   promises demo_rebuilding ! 0 = (''/a'', Resolved) \<and>
   map_option status (map_of (entries demo_rebuilding) ''/a'') = Some BUILDING \<and>
   (\<exists>xs. trace (done_handler [] (clock 9) demo_rebuilding) = trace demo_rebuilding @ xs \<and>
      Invoke 0 None \<in> set xs) \<and>
   promises (done_handler [] (clock 9) demo_rebuilding) ! 0 = (''/a'', Resolved)"
proof -
  have cb: "0 \<in> set (doneCallbacks demo_added ''/a'')"
    by (simp add: demo_added_facts)
  obtain e where e: "map_of (entries demo_rebuilding) ''/a'' = Some e" "status e = BUILDING"
    using demo_rebuilding_facts(1) by auto
  have "(\<exists>xs. trace (done_handler [] (clock 9) demo_rebuilding) = trace demo_rebuilding @ xs \<and>
      Invoke 0 None \<in> set xs) \<and>
     promises (done_handler [] (clock 9) demo_rebuilding) ! 0 = (''/a'', Resolved)"
    using subscribers_never_removed [OF demo_rebuilding_run cb] e
    by (simp add: demo_rebuilding_facts)
  moreover have "promises demo_rebuilding ! 0 = (''/a'', Resolved)"
    by (simp add: demo_rebuilding_facts)
  ultimately show ?thesis
    using demo_rebuilding_run demo_added_facts(3) demo_rebuilding_facts(1) by blast
qed

end
